theory Spec2Isabelle
  imports Complex_Main "HOL-Library.Word" "HOL-Library.Monad_Syntax" "HOL-Library.Log_Nat"
begin

section \<open>JavaScript values shared by the models\<close>

text \<open>
  Reading a JavaScript array outside its bounds does not raise: it yields
  \<^verbatim>\<open>undefined\<close>, which arithmetic turns into \<^verbatim>\<open>NaN\<close>. Array reads
  are therefore modelled with an option, \<open>None\<close> standing for \<^verbatim>\<open>undefined\<close>.
\<close>

definition js_nth :: "'a list \<Rightarrow> int \<Rightarrow> 'a option" where
  "js_nth xs i = (if 0 \<le> i \<and> i < int (length xs) then Some (xs ! nat i) else None)"

section \<open>ABIFTypes.js\<close>

text \<open>
  A \<^verbatim>\<open>DataView\<close> over an \<^verbatim>\<open>ArrayBuffer\<close> is a list of bytes. Its readers
  throw a \<^verbatim>\<open>RangeError\<close> when the bytes asked for are not all inside the
  buffer; in the readers below that exception is the value \<open>None\<close>. All
  multi-byte reads of the parser are big-endian (\<^verbatim>\<open>littleEndian = false\<close>).
\<close>

type_synonym dataview = "8 word list"

definition getUint8 :: "dataview \<Rightarrow> nat \<Rightarrow> nat option" where
  "getUint8 dv byteOffset =
    (if byteOffset + 1 \<le> length dv then Some (unat (dv ! byteOffset)) else None)"

definition getUint16 :: "dataview \<Rightarrow> nat \<Rightarrow> nat option" where
  "getUint16 dv byteOffset =
    (if byteOffset + 2 \<le> length dv
     then Some (unat (dv ! byteOffset) * 256 + unat (dv ! (byteOffset + 1)))
     else None)"

definition getUint32 :: "dataview \<Rightarrow> nat \<Rightarrow> nat option" where
  "getUint32 dv byteOffset =
    (if byteOffset + 4 \<le> length dv
     then Some (unat (dv ! byteOffset) * 16777216 + unat (dv ! (byteOffset + 1)) * 65536
                + unat (dv ! (byteOffset + 2)) * 256 + unat (dv ! (byteOffset + 3)))
     else None)"

text \<open>
  A number read from a file is an integer, or an IEEE-754 value that is kept
  here as the bit pattern \<^verbatim>\<open>getFloat32\<close> / \<^verbatim>\<open>getFloat64\<close> decode (the
  big-endian bytes read as one unsigned number): the conversion of the
  pattern to a floating-point number is outside this model.
\<close>

datatype num = Integer int | Float32 "32 word" | Float64 "64 word"

definition getFloat32 :: "dataview \<Rightarrow> nat \<Rightarrow> num option" where
  "getFloat32 dv byteOffset = map_option (\<lambda>bits. Float32 (of_nat bits)) (getUint32 dv byteOffset)"

definition getFloat64 :: "dataview \<Rightarrow> nat \<Rightarrow> num option" where
  "getFloat64 dv byteOffset =
    (if byteOffset + 8 \<le> length dv
     then do {
       hi \<leftarrow> getUint32 dv byteOffset;
       lo \<leftarrow> getUint32 dv (byteOffset + 4);
       Some (Float64 (of_nat (hi * 4294967296 + lo)))
     }
     else None)"

text \<open>\<^verbatim>\<open>inlineView.setUint32(0, value, false)\<close> on a fresh four-byte buffer.\<close>

definition setUint32_view :: "nat \<Rightarrow> dataview" where
  "setUint32_view v =
    [of_nat (v div 16777216), of_nat (v div 65536), of_nat (v div 256), of_nat v]"

definition ABIF_TYPE_BYTE :: nat where "ABIF_TYPE_BYTE = 1"
definition ABIF_TYPE_CHAR :: nat where "ABIF_TYPE_CHAR = 2"
definition ABIF_TYPE_WORD :: nat where "ABIF_TYPE_WORD = 3"
definition ABIF_TYPE_SHORT :: nat where "ABIF_TYPE_SHORT = 4"
definition ABIF_TYPE_LONG :: nat where "ABIF_TYPE_LONG = 5"
definition ABIF_TYPE_FLOAT :: nat where "ABIF_TYPE_FLOAT = 7"
definition ABIF_TYPE_DOUBLE :: nat where "ABIF_TYPE_DOUBLE = 8"
definition ABIF_TYPE_DATE :: nat where "ABIF_TYPE_DATE = 10"
definition ABIF_TYPE_TIME :: nat where "ABIF_TYPE_TIME = 11"
definition ABIF_TYPE_PSTRING :: nat where "ABIF_TYPE_PSTRING = 18"
definition ABIF_TYPE_CSTRING :: nat where "ABIF_TYPE_CSTRING = 19"

definition toSignedShort :: "int \<Rightarrow> int" where
  "toSignedShort v = (if v \<ge> 0x8000 then v - 0x10000 else v)"

definition toSignedLong :: "int \<Rightarrow> int" where
  "toSignedLong v = (if v \<ge> 0x80000000 then v - 0x100000000 else v)"

text \<open>\<^verbatim>\<open>String.fromCharCode\<close> of a byte is the character with that code.\<close>

definition fromCharCode :: "nat \<Rightarrow> char" where
  "fromCharCode n = char_of n"

definition readString4 :: "dataview \<Rightarrow> nat \<Rightarrow> string option" where
  "readString4 dv off =
    map_option (map fromCharCode) (those (map (\<lambda>i. getUint8 dv (off + i)) [0..<4]))"

definition readPString :: "dataview \<Rightarrow> nat \<Rightarrow> nat \<Rightarrow> string option" where
  "readPString dv off maxLength =
    (if maxLength < 1 then Some []
     else do {
       len \<leftarrow> getUint8 dv off;
       let actualLength = min len (maxLength - 1);
       map_option (map fromCharCode)
         (those (map (\<lambda>i. getUint8 dv (off + 1 + i)) [0..<actualLength]))
     })"

text \<open>
  The loop of \<^verbatim>\<open>readCString\<close>: \<open>n\<close> is the number of iterations left
  (\<^verbatim>\<open>maxLength - i\<close>) and \<open>pos\<close> is \<^verbatim>\<open>offset + i\<close>.
\<close>

fun readCString_loop :: "dataview \<Rightarrow> nat \<Rightarrow> nat \<Rightarrow> string option" where
  "readCString_loop dv pos 0 = Some []"
| "readCString_loop dv pos (Suc n) =
    do {
      charCode \<leftarrow> getUint8 dv pos;
      if charCode = 0 then Some []
      else map_option ((#) (fromCharCode charCode)) (readCString_loop dv (pos + 1) n)
    }"

definition readCString :: "dataview \<Rightarrow> nat \<Rightarrow> nat \<Rightarrow> string option" where
  "readCString dv off maxLength = readCString_loop dv off maxLength"

text \<open>The values \<^verbatim>\<open>_extractData\<close> can return.\<close>

datatype tag_value =
    Number num
  | Array "num list"
  | Date nat nat nat
  | Time nat nat nat nat
  | Str string
  | Hex string

definition readDate :: "dataview \<Rightarrow> nat \<Rightarrow> tag_value option" where
  "readDate dv off =
    do {
      year \<leftarrow> getUint16 dv off;
      month \<leftarrow> getUint8 dv (off + 2);
      day \<leftarrow> getUint8 dv (off + 3);
      Some (Date year month day)
    }"

definition readTime :: "dataview \<Rightarrow> nat \<Rightarrow> tag_value option" where
  "readTime dv off =
    do {
      hour \<leftarrow> getUint8 dv off;
      minute \<leftarrow> getUint8 dv (off + 1);
      second \<leftarrow> getUint8 dv (off + 2);
      hsecond \<leftarrow> getUint8 dv (off + 3);
      Some (Time hour minute second hsecond)
    }"

definition readByteArray :: "dataview \<Rightarrow> nat \<Rightarrow> nat \<Rightarrow> num list option" where
  "readByteArray dv off count =
    those (map (\<lambda>i. map_option (\<lambda>b. Integer (int b)) (getUint8 dv (off + i))) [0..<count])"

definition readCharArray :: "dataview \<Rightarrow> nat \<Rightarrow> nat \<Rightarrow> num list option" where
  "readCharArray dv off count = readByteArray dv off count"

definition readWordArray :: "dataview \<Rightarrow> nat \<Rightarrow> nat \<Rightarrow> num list option" where
  "readWordArray dv off count =
    those (map (\<lambda>i. map_option (\<lambda>w. Integer (int w)) (getUint16 dv (off + i * 2))) [0..<count])"

definition readShortArray :: "dataview \<Rightarrow> nat \<Rightarrow> nat \<Rightarrow> num list option" where
  "readShortArray dv off count =
    those (map (\<lambda>i. map_option (\<lambda>unsigned. Integer (toSignedShort (int unsigned)))
                       (getUint16 dv (off + i * 2))) [0..<count])"

definition readLongArray :: "dataview \<Rightarrow> nat \<Rightarrow> nat \<Rightarrow> num list option" where
  "readLongArray dv off count =
    those (map (\<lambda>i. map_option (\<lambda>unsigned. Integer (toSignedLong (int unsigned)))
                       (getUint32 dv (off + i * 4))) [0..<count])"

definition readFloatArray :: "dataview \<Rightarrow> nat \<Rightarrow> nat \<Rightarrow> num list option" where
  "readFloatArray dv off count = those (map (\<lambda>i. getFloat32 dv (off + i * 4)) [0..<count])"

definition readDoubleArray :: "dataview \<Rightarrow> nat \<Rightarrow> nat \<Rightarrow> num list option" where
  "readDoubleArray dv off count = those (map (\<lambda>i. getFloat64 dv (off + i * 8)) [0..<count])"

section \<open>ABIFParser.js\<close>

record dir_entry =
  name :: string
  number :: nat
  elementtype :: nat
  elementsize :: nat
  numelements :: nat
  datasize :: nat
  dataoffset :: nat
  datahandle :: nat

record header = dir_entry +
  filetype :: string
  version :: nat

text \<open>
  The two ways \<^verbatim>\<open>parse\<close> can fail: the \<^verbatim>\<open>Error\<close> it throws itself when the
  magic number is wrong (its argument is the magic found), and the
  \<^verbatim>\<open>RangeError\<close> of a \<^verbatim>\<open>DataView\<close> read outside the buffer.
\<close>

datatype error = FormatError string | RangeError

record parser =
  buffer :: dataview
  header :: "header option"
  directory :: "dir_entry list"
  tags :: "string \<rightharpoonup> tag_value"
  parsed :: bool

definition new_ABIFParser :: "dataview \<Rightarrow> parser" where
  "new_ABIFParser arrayBuffer =
    \<lparr>buffer = arrayBuffer, header = None, directory = [], tags = Map.empty, parsed = False\<rparr>"

definition parseHeader :: "dataview \<Rightarrow> header option" where
  "parseHeader dv =
    do {
      ft \<leftarrow> readString4 dv 0;
      ver \<leftarrow> getUint16 dv 4;
      nm \<leftarrow> readString4 dv 6;
      nr \<leftarrow> getUint32 dv 10;
      et \<leftarrow> getUint16 dv 14;
      es \<leftarrow> getUint16 dv 16;
      ne \<leftarrow> getUint32 dv 18;
      ds \<leftarrow> getUint32 dv 22;
      dof \<leftarrow> getUint32 dv 26;
      dh \<leftarrow> getUint32 dv 30;
      Some \<lparr>name = nm, number = nr, elementtype = et, elementsize = es, numelements = ne,
            datasize = ds, dataoffset = dof, datahandle = dh, filetype = ft, version = ver\<rparr>
    }"

definition parseDirectoryEntry :: "dataview \<Rightarrow> nat \<Rightarrow> dir_entry option" where
  "parseDirectoryEntry dv off =
    do {
      nm \<leftarrow> readString4 dv off;
      nr \<leftarrow> getUint32 dv (off + 4);
      et \<leftarrow> getUint16 dv (off + 8);
      es \<leftarrow> getUint16 dv (off + 10);
      ne \<leftarrow> getUint32 dv (off + 12);
      ds \<leftarrow> getUint32 dv (off + 16);
      dof \<leftarrow> getUint32 dv (off + 20);
      dh \<leftarrow> getUint32 dv (off + 24);
      Some \<lparr>name = nm, number = nr, elementtype = et, elementsize = es, numelements = ne,
            datasize = ds, dataoffset = dof, datahandle = dh\<rparr>
    }"

definition parseDirectory :: "dataview \<Rightarrow> header \<Rightarrow> dir_entry list option" where
  "parseDirectory dv h =
    (let dirOffset = dataoffset h; entrySize = elementsize h; numEntries = numelements h
     in those (map (\<lambda>i. parseDirectoryEntry dv (dirOffset + i * entrySize)) [0..<numEntries]))"

text \<open>
  \<^verbatim>\<open>parse\<close> returns the exception it threw, if any, and the parser object as
  the call left it: an assignment made before a \<^verbatim>\<open>throw\<close> stays.
\<close>

definition parse :: "parser \<Rightarrow> error option \<times> parser" where
  "parse p =
    (if parsed p then (None, p)
     else case parseHeader (buffer p) of
       None \<Rightarrow> (Some RangeError, p)
     | Some h \<Rightarrow>
        (let p1 = p\<lparr>header := Some h\<rparr>
         in if filetype h \<noteq> ''ABIF'' then (Some (FormatError (filetype h)), p1)
            else case parseDirectory (buffer p1) h of
              None \<Rightarrow> (Some RangeError, p1)
            | Some entries \<Rightarrow> (None, p1\<lparr>directory := entries, parsed := True\<rparr>)))"


text \<open>\<^verbatim>\<open>`${name}_${number}`\<close>: the decimal digits of the tag number follow the name.\<close>

definition digit_char :: "nat \<Rightarrow> char" where
  "digit_char d = char_of (48 + d)"

fun string_of_nat :: "nat \<Rightarrow> string" where
  "string_of_nat n =
    (if n < 10 then [digit_char n] else string_of_nat (n div 10) @ [digit_char (n mod 10)])"

declare string_of_nat.simps [simp del]

definition getTagKey :: "string \<Rightarrow> nat \<Rightarrow> string" where
  "getTagKey nm nr = nm @ ''_'' @ string_of_nat nr"

definition findEntry :: "parser \<Rightarrow> string \<Rightarrow> nat \<Rightarrow> dir_entry option" where
  "findEntry p nm nr = find (\<lambda>e. name e = nm \<and> number e = nr) (directory p)"

definition findEntriesByName :: "parser \<Rightarrow> string \<Rightarrow> dir_entry list" where
  "findEntriesByName p nm = filter (\<lambda>e. name e = nm) (directory p)"

definition extractTypedArray :: "dataview \<Rightarrow> nat \<Rightarrow> nat \<Rightarrow> string \<Rightarrow> tag_value option" where
  "extractTypedArray dv off count ty =
    do {
      result \<leftarrow>
        (if ty = ''byte'' then readByteArray dv off count
         else if ty = ''char'' then readCharArray dv off count
         else if ty = ''word'' then readWordArray dv off count
         else if ty = ''short'' then readShortArray dv off count
         else if ty = ''long'' then readLongArray dv off count
         else if ty = ''float'' then readFloatArray dv off count
         else if ty = ''double'' then readDoubleArray dv off count
         else readByteArray dv off count);
      Some (if count = 1 then Number (result ! 0) else Array result)
    }"

text \<open>\<^verbatim>\<open>toString(16).padStart(2, '0')\<close> of a byte.\<close>

definition hex_digit :: "nat \<Rightarrow> char" where
  "hex_digit d = (if d < 10 then char_of (48 + d) else char_of (87 + d))"

definition hex_byte :: "nat \<Rightarrow> string" where
  "hex_byte b = [hex_digit (b div 16), hex_digit (b mod 16)]"

definition extractRawBytes :: "dataview \<Rightarrow> nat \<Rightarrow> nat \<Rightarrow> tag_value option" where
  "extractRawBytes dv off len =
    map_option (\<lambda>bs. Hex (concat (map hex_byte bs)))
      (those (map (\<lambda>i. getUint8 dv (off + i)) [0..<len]))"

definition extractData :: "parser \<Rightarrow> dir_entry \<Rightarrow> tag_value option" where
  "extractData p entry =
    (let dv = (if datasize entry \<le> 4 then setUint32_view (dataoffset entry) else buffer p);
         off = (if datasize entry \<le> 4 then 0 else dataoffset entry)
     in if elementtype entry = ABIF_TYPE_BYTE
          then extractTypedArray dv off (numelements entry) ''byte''
        else if elementtype entry = ABIF_TYPE_CHAR
          then extractTypedArray dv off (numelements entry) ''char''
        else if elementtype entry = ABIF_TYPE_WORD
          then extractTypedArray dv off (numelements entry) ''word''
        else if elementtype entry = ABIF_TYPE_SHORT
          then extractTypedArray dv off (numelements entry) ''short''
        else if elementtype entry = ABIF_TYPE_LONG
          then extractTypedArray dv off (numelements entry) ''long''
        else if elementtype entry = ABIF_TYPE_FLOAT
          then extractTypedArray dv off (numelements entry) ''float''
        else if elementtype entry = ABIF_TYPE_DOUBLE
          then extractTypedArray dv off (numelements entry) ''double''
        else if elementtype entry = ABIF_TYPE_DATE then readDate dv off
        else if elementtype entry = ABIF_TYPE_TIME then readTime dv off
        else if elementtype entry = ABIF_TYPE_PSTRING
          then map_option Str (readPString dv off (datasize entry))
        else if elementtype entry = ABIF_TYPE_CSTRING
          then map_option Str (readCString dv off (datasize entry))
        else extractRawBytes dv off (datasize entry))"

text \<open>
  \<^verbatim>\<open>getTagData\<close> returns \<open>None\<close> when a read throws (the cache is then
  untouched), and otherwise the value, \<open>None\<close> standing for \<^verbatim>\<open>null\<close>, with
  the parser whose cache holds the value.
\<close>

definition getTagData :: "parser \<Rightarrow> string \<Rightarrow> nat \<Rightarrow> (tag_value option \<times> parser) option" where
  "getTagData p nm nr =
    (let key = getTagKey nm nr
     in case tags p key of
          Some cached \<Rightarrow> Some (Some cached, p)
        | None \<Rightarrow>
           (case findEntry p nm nr of
              None \<Rightarrow> Some (None, p)
            | Some entry \<Rightarrow>
               (case extractData p entry of
                  None \<Rightarrow> None
                | Some data \<Rightarrow> Some (Some data, p\<lparr>tags := (tags p)(key \<mapsto> data)\<rparr>))))"


section \<open>JavaScript numbers and built-ins\<close>

text \<open>
  A JavaScript number is a rational extended by the two infinities and
  \<^verbatim>\<open>NaN\<close>, with the IEEE-754 rules for the special values; the sign of zero
  is not modelled. The operations below are the exact ones. The scale and
  scroll values of the canvas are computed with them: rounding is not
  modelled there. The quality trimmer rounds the result of every operation
  to the nearest double (\<open>round_result\<close> below).
\<close>

datatype jsnum = Num rat | PosInf | NegInf | NaN

fun js_neg :: "jsnum \<Rightarrow> jsnum" where
  "js_neg (Num a) = Num (- a)"
| "js_neg PosInf = NegInf"
| "js_neg NegInf = PosInf"
| "js_neg NaN = NaN"

fun js_plus :: "jsnum \<Rightarrow> jsnum \<Rightarrow> jsnum" where
  "js_plus NaN y = NaN"
| "js_plus x NaN = NaN"
| "js_plus (Num a) (Num b) = Num (a + b)"
| "js_plus PosInf NegInf = NaN"
| "js_plus NegInf PosInf = NaN"
| "js_plus PosInf y = PosInf"
| "js_plus NegInf y = NegInf"
| "js_plus (Num a) y = y"

definition js_minus :: "jsnum \<Rightarrow> jsnum \<Rightarrow> jsnum" where
  "js_minus x y = js_plus x (js_neg y)"

text \<open>The sign of a number other than \<^verbatim>\<open>NaN\<close>: \<open>1\<close>, \<open>0\<close> or \<open>-1\<close>.\<close>

fun js_sign :: "jsnum \<Rightarrow> rat" where
  "js_sign (Num a) = sgn a"
| "js_sign PosInf = 1"
| "js_sign NegInf = -1"
| "js_sign NaN = 0"

definition inf_of_sign :: "rat \<Rightarrow> jsnum" where
  "inf_of_sign s = (if s > 0 then PosInf else if s < 0 then NegInf else NaN)"

fun js_times :: "jsnum \<Rightarrow> jsnum \<Rightarrow> jsnum" where
  "js_times NaN y = NaN"
| "js_times x NaN = NaN"
| "js_times (Num a) (Num b) = Num (a * b)"
| "js_times x y = inf_of_sign (js_sign x * js_sign y)"

fun js_divide :: "jsnum \<Rightarrow> jsnum \<Rightarrow> jsnum" where
  "js_divide NaN y = NaN"
| "js_divide x NaN = NaN"
| "js_divide (Num a) (Num b) = (if b = 0 then inf_of_sign (sgn a) else Num (a / b))"
| "js_divide (Num a) y = Num 0"
| "js_divide x (Num b) = inf_of_sign (js_sign x * (if b < 0 then -1 else 1))"
| "js_divide x y = NaN"

fun js_le :: "jsnum \<Rightarrow> jsnum \<Rightarrow> bool" where
  "js_le NaN y = False"
| "js_le x NaN = False"
| "js_le NegInf y = True"
| "js_le x PosInf = True"
| "js_le (Num a) (Num b) = (a \<le> b)"
| "js_le x y = False"

definition Math_min :: "jsnum \<Rightarrow> jsnum \<Rightarrow> jsnum" where
  "Math_min x y = (if x = NaN \<or> y = NaN then NaN else if js_le x y then x else y)"

definition Math_max :: "jsnum \<Rightarrow> jsnum \<Rightarrow> jsnum" where
  "Math_max x y = (if x = NaN \<or> y = NaN then NaN else if js_le x y then y else x)"

fun Math_ceil :: "jsnum \<Rightarrow> jsnum" where
  "Math_ceil (Num a) = Num (of_int \<lceil>a\<rceil>)"
| "Math_ceil x = x"

text \<open>
  The double nearest to a rational, ties going to the even significand
  (the rounding of IEEE-754 binary64 arithmetic): a double is a multiple
  \<open>m * 2 ^ q\<close> with \<open>m < 2 ^ 53\<close> and \<open>q \<ge> -1074\<close>, and a result of magnitude
  \<open>2 ^ 1024\<close> or more is an infinity. \<open>pow2 k\<close> is \<open>2 ^ k\<close> for an integer
  \<open>k\<close>, and \<open>floor_log2 a\<close> is the exponent \<open>e\<close> of a positive rational,
  \<open>2 ^ e \<le> a < 2 ^ (e + 1)\<close>.
\<close>

definition pow2 :: "int \<Rightarrow> rat" where
  "pow2 k = (if 0 \<le> k then 2 ^ nat k else 1 / 2 ^ nat (- k))"

definition floor_log2 :: "rat \<Rightarrow> int" where
  "floor_log2 a =
    (let d = bitlen (fst (quotient_of a)) - bitlen (snd (quotient_of a))
     in if pow2 d \<le> a then d else d - 1)"

definition round_half_even :: "rat \<Rightarrow> int" where
  "round_half_even y =
    (let f = \<lfloor>y\<rfloor>; d = y - of_int f
     in if d < 1 / 2 then f else if 1 / 2 < d then f + 1 else if even f then f else f + 1)"

definition round_double :: "rat \<Rightarrow> jsnum" where
  "round_double x =
    (if x = 0 then Num 0
     else
       (let a = \<bar>x\<bar>;
            ulp = pow2 (max (floor_log2 a) (- 1022) - 52);
            r = of_int (round_half_even (a / ulp)) * ulp
        in if pow2 1024 \<le> r then (if 0 < x then PosInf else NegInf)
           else Num (sgn x * r)))"

text \<open>The rounding of the exact result of an operation.\<close>

fun round_result :: "jsnum \<Rightarrow> jsnum" where
  "round_result (Num x) = round_double x"
| "round_result x = x"

text \<open>\<^verbatim>\<open>x !== y\<close> on numbers: \<^verbatim>\<open>NaN\<close> differs from every number, itself included.\<close>

definition js_strict_neq :: "jsnum \<Rightarrow> jsnum \<Rightarrow> bool" where
  "js_strict_neq x y = (x = NaN \<or> y = NaN \<or> x \<noteq> y)"

text \<open>
  A peak location is an integer sample index, or \<^verbatim>\<open>NaN\<close> (\<open>None\<close>) once
  arithmetic has met an \<^verbatim>\<open>undefined\<close> array element.
\<close>

type_synonym jsint = "int option"

definition jsint_minus :: "jsint \<Rightarrow> jsint \<Rightarrow> jsint" where
  "jsint_minus a b = (case a of None \<Rightarrow> None | Some x \<Rightarrow> (case b of None \<Rightarrow> None | Some y \<Rightarrow> Some (x - y)))"

definition jsint_plus :: "jsint \<Rightarrow> jsint \<Rightarrow> jsint" where
  "jsint_plus a b = (case a of None \<Rightarrow> None | Some x \<Rightarrow> (case b of None \<Rightarrow> None | Some y \<Rightarrow> Some (x + y)))"

definition jsint_max :: "jsint \<Rightarrow> jsint \<Rightarrow> jsint" where
  "jsint_max a b = (case a of None \<Rightarrow> None | Some x \<Rightarrow> (case b of None \<Rightarrow> None | Some y \<Rightarrow> Some (max x y)))"

definition jsint_min :: "jsint \<Rightarrow> jsint \<Rightarrow> jsint" where
  "jsint_min a b = (case a of None \<Rightarrow> None | Some x \<Rightarrow> (case b of None \<Rightarrow> None | Some y \<Rightarrow> Some (min x y)))"

definition jsint_le :: "jsint \<Rightarrow> jsint \<Rightarrow> bool" where
  "jsint_le a b = (case a of None \<Rightarrow> False | Some x \<Rightarrow> (case b of None \<Rightarrow> False | Some y \<Rightarrow> x \<le> y))"

definition jsnum_of :: "jsint \<Rightarrow> jsnum" where
  "jsnum_of a = (case a of None \<Rightarrow> NaN | Some x \<Rightarrow> Num (of_int x))"

text \<open>
  \<^verbatim>\<open>peakLocations[i]\<close> in arithmetic: \<^verbatim>\<open>undefined\<close> outside the array, which
  every operator turns into \<^verbatim>\<open>NaN\<close>.
\<close>

definition js_peak :: "jsint list \<Rightarrow> int \<Rightarrow> jsint" where
  "js_peak xs i = (case js_nth xs i of None \<Rightarrow> None | Some v \<Rightarrow> v)"

text \<open>
  \<^verbatim>\<open>Array.prototype.slice(start, end)\<close>: an argument that is \<^verbatim>\<open>NaN\<close> counts
  as \<open>0\<close>, a negative one counts from the end, and both are clamped to the
  array.
\<close>

definition slice_index :: "nat \<Rightarrow> jsint \<Rightarrow> nat" where
  "slice_index len a =
    (let r = (case a of None \<Rightarrow> 0 | Some v \<Rightarrow> v)
     in if r < 0 then nat (max (int len + r) 0) else nat (min r (int len)))"

definition js_slice :: "'a list \<Rightarrow> jsint \<Rightarrow> jsint \<Rightarrow> 'a list" where
  "js_slice xs a b =
    (let k = slice_index (length xs) a; final = slice_index (length xs) b
     in take (final - k) (drop k xs))"

text \<open>
  \<^verbatim>\<open>String.prototype.substring(start, end)\<close> with integer arguments: both are
  clamped to \<open>[0, length]\<close> and swapped when \<open>start > end\<close>.
\<close>

definition js_substring :: "string \<Rightarrow> int \<Rightarrow> int \<Rightarrow> string" where
  "js_substring s a b =
    (let len = int (length s);
         fs = min (max a 0) len; fe = min (max b 0) len;
         from = min fs fe; to = max fs fe
     in take (nat (to - from)) (drop (nat from) s))"

text \<open>
  A JavaScript string is a sequence of UTF-16 code units. The bases of a
  sequence are read from bytes of the file or typed in the base editor, so
  its code units are below 256 and the sequence is a \<open>string\<close> here; a
  search pattern is any string, a list of code units.
\<close>

type_synonym jsstring = "nat list"

definition code_units :: "string \<Rightarrow> jsstring" where
  "code_units s = map of_char s"

definition ascii :: "jsstring \<Rightarrow> bool" where
  "ascii s = list_all (\<lambda>u. u < 128) s"

text \<open>
  \<^verbatim>\<open>String.prototype.toUpperCase\<close>. On a string of ASCII code units it maps
  the letters \<open>a\<close> to \<open>z\<close> to \<open>A\<close> to \<open>Z\<close> and leaves every other code unit
  as it is. On any other string the result is what the Unicode case
  conversion of the engine gives, which can change the length of the string
  (the sharp s, code unit 223, becomes \<^verbatim>\<open>SS\<close>): that conversion is a parameter
  of the model.
\<close>

type_synonym unicode = "jsstring \<Rightarrow> jsstring"

definition toUpperCase_ascii :: "nat \<Rightarrow> nat" where
  "toUpperCase_ascii u = (if 97 \<le> u \<and> u \<le> 122 then u - 32 else u)"

definition toUpperCase :: "unicode \<Rightarrow> jsstring \<Rightarrow> jsstring" where
  "toUpperCase uc s = (if ascii s then map toUpperCase_ascii s else uc s)"

text \<open>
  \<^verbatim>\<open>String.prototype.indexOf(searchString, position)\<close>: the position is clamped
  to \<open>[0, length]\<close>, the result is the least index from there at which
  \<open>searchString\<close> occurs, and \<open>-1\<close> when there is none.
\<close>

function indexOf_from :: "'a list \<Rightarrow> 'a list \<Rightarrow> nat \<Rightarrow> int" where
  "indexOf_from s p k =
    (if length s < k + length p then -1
     else if take (length p) (drop k s) = p then int k
     else indexOf_from s p (k + 1))"
  by pat_completeness auto
termination
  by (relation "measure (\<lambda>(s, p, k). length s + 1 - k)") auto

declare indexOf_from.simps [simp del]

definition indexOf :: "'a list \<Rightarrow> 'a list \<Rightarrow> int \<Rightarrow> int" where
  "indexOf s p position = indexOf_from s p (nat (min (max position 0) (int (length s))))"


section \<open>QualityTrimmer.js\<close>

text \<open>
  Quality scores are integers (Phred values read from the file). The sum and
  the window average are JavaScript numbers: each \<^verbatim>\<open>+=\<close> and the division
  by 10 give the double nearest to the exact result, a read outside the
  array gives \<^verbatim>\<open>undefined\<close>, which the addition turns into \<^verbatim>\<open>NaN\<close>, and
  every comparison with \<^verbatim>\<open>NaN\<close> is false. The two thresholds are JavaScript
  numbers as well.
\<close>

record trim_points =
  trimStart :: int
  trimEnd :: int

text \<open>\<^verbatim>\<open>qualityScores[i]\<close> as an operand of \<^verbatim>\<open>+=\<close>.\<close>

definition js_score :: "int list \<Rightarrow> int \<Rightarrow> jsnum" where
  "js_score qualityScores i =
    (case js_nth qualityScores i of None \<Rightarrow> NaN | Some q \<Rightarrow> Num (of_int q))"

definition js_add :: "jsnum \<Rightarrow> jsnum \<Rightarrow> jsnum" where
  "js_add a b = round_result (js_plus a b)"

definition js_div :: "jsnum \<Rightarrow> jsnum \<Rightarrow> jsnum" where
  "js_div a b = round_result (js_divide a b)"

definition js_ge :: "jsnum \<Rightarrow> jsnum \<Rightarrow> bool" where
  "js_ge a t = js_le t a"

fun js_lt :: "jsnum \<Rightarrow> jsnum \<Rightarrow> bool" where
  "js_lt NaN t = False"
| "js_lt a NaN = False"
| "js_lt (Num a) (Num t) = (a < t)"
| "js_lt NegInf NegInf = False"
| "js_lt NegInf t = True"
| "js_lt PosInf t = False"
| "js_lt (Num a) PosInf = True"
| "js_lt (Num a) NegInf = False"

definition centeredWindowAverage :: "int list \<Rightarrow> int \<Rightarrow> jsnum" where
  "centeredWindowAverage qualityScores centerIndex =
    (let sum = Num 0;
         sum = js_add sum (js_score qualityScores (centerIndex - 5));
         sum = js_add sum (js_score qualityScores (centerIndex - 4));
         sum = js_add sum (js_score qualityScores (centerIndex - 3));
         sum = js_add sum (js_score qualityScores (centerIndex - 2));
         sum = js_add sum (js_score qualityScores (centerIndex - 1));
         sum = js_add sum (js_score qualityScores (centerIndex + 1));
         sum = js_add sum (js_score qualityScores (centerIndex + 2));
         sum = js_add sum (js_score qualityScores (centerIndex + 3));
         sum = js_add sum (js_score qualityScores (centerIndex + 4));
         sum = js_add sum (js_score qualityScores (centerIndex + 5))
     in js_div sum (Num 10))"

text \<open>The local variables of the scan in \<^verbatim>\<open>findTrimPoints\<close>.\<close>

record scan_state =
  s_trimStart :: int
  s_lastGoodPosition :: int
  s_trimEnd :: int
  s_foundFallOff :: bool

text \<open>
  The \<^verbatim>\<open>for (let i = 5; i <= length - 6; i++)\<close> loop; the \<^verbatim>\<open>break\<close> is the
  branch that returns without a recursive call.
\<close>

function scan_loop :: "int list \<Rightarrow> jsnum \<Rightarrow> jsnum \<Rightarrow> int \<Rightarrow> scan_state \<Rightarrow> scan_state" where
  "scan_loop qualityScores upperThreshold lowerThreshold i st =
    (if i \<le> int (length qualityScores) - 6 then
       (let windowAvg = centeredWindowAverage qualityScores i;
            st1 = (if js_ge windowAvg upperThreshold
                   then st\<lparr>s_trimStart := (if s_trimStart st = -1 then i else s_trimStart st),
                           s_lastGoodPosition := i\<rparr>
                   else st)
        in if s_trimStart st1 \<noteq> -1 \<and> js_lt windowAvg lowerThreshold
           then st1\<lparr>s_trimEnd := s_lastGoodPosition st1, s_foundFallOff := True\<rparr>
           else scan_loop qualityScores upperThreshold lowerThreshold (i + 1) st1)
     else st)"
  by pat_completeness auto
termination
  by (relation "measure (\<lambda>(qs, u, l, i, st). nat (int (length qs) - 5 - i))") auto

declare scan_loop.simps [simp del]

definition findTrimPoints :: "int list \<Rightarrow> jsnum \<Rightarrow> jsnum \<Rightarrow> trim_points" where
  "findTrimPoints qualityScores upperThreshold lowerThreshold =
    (if length qualityScores = 0 then \<lparr>trimStart = 0, trimEnd = 0\<rparr>
     else if length qualityScores < 11
       then \<lparr>trimStart = 0, trimEnd = int (length qualityScores) - 1\<rparr>
     else
       (let st = scan_loop qualityScores upperThreshold lowerThreshold 5
                   \<lparr>s_trimStart = -1, s_lastGoodPosition = -1,
                    s_trimEnd = int (length qualityScores) - 6, s_foundFallOff = False\<rparr>
        in if s_trimStart st = -1 then \<lparr>trimStart = 5, trimEnd = 5\<rparr>
           else \<lparr>trimStart = s_trimStart st,
                 trimEnd = (if \<not> s_foundFallOff st
                            then (if s_lastGoodPosition st \<noteq> -1 then s_lastGoodPosition st
                                  else int (length qualityScores) - 6)
                            else s_trimEnd st)\<rparr>))"



section \<open>ChromatogramCanvas.js\<close>

text \<open>
  The fields of a \<^verbatim>\<open>ChromatogramCanvas\<close> that its data, search, zoom and trim
  methods read or write. \<open>clientWidth\<close> is \<^verbatim>\<open>container.clientWidth\<close>,
  \<open>scrollLeft\<close> is \<^verbatim>\<open>wrapper.scrollLeft\<close>, \<open>canvas_width\<close> is
  \<^verbatim>\<open>canvas.width\<close>, and \<open>minXScale\<close>, \<open>maxXScale\<close> are the two bounds in
  \<^verbatim>\<open>config\<close>. A trace object maps a nucleotide letter to its samples. What
  only the drawing code uses (\<^verbatim>\<open>traceMax\<close>, \<^verbatim>\<open>yScale\<close>, the 2D context) is
  left out, and \<^verbatim>\<open>render()\<close> changes none of the fields below.
\<close>

record canvas =
  traces :: "(string \<rightharpoonup> int list) option"
  rawTraces :: "(string \<rightharpoonup> int list) option"
  sequence :: string
  peakLocations :: "jsint list"
  qualityScores :: "int list"
  channelOrder :: "string list"
  scrollX :: jsnum
  xScale :: jsnum
  selection :: "int \<times> int"
  searchMatches :: "(int \<times> int) list"
  currentMatchIndex :: int
  modifications :: "int set"
  totalWidth :: jsnum
  canvas_width :: jsnum
  scrollLeft :: jsnum
  clientWidth :: jsnum
  minXScale :: jsnum
  maxXScale :: jsnum

text \<open>
  Assigning \<^verbatim>\<open>wrapper.scrollLeft\<close> is answered by the browser, which clamps
  (and may round) the value for the current layout. The browser is a
  parameter of the model: a function from the canvas width, the container
  width and the value assigned to the value \<^verbatim>\<open>scrollLeft\<close> then has.
\<close>

type_synonym browser = "jsnum \<Rightarrow> jsnum \<Rightarrow> jsnum \<Rightarrow> jsnum"

definition set_scrollLeft :: "browser \<Rightarrow> canvas \<Rightarrow> jsnum \<Rightarrow> canvas" where
  "set_scrollLeft br c v = c\<lparr>scrollLeft := br (canvas_width c) (clientWidth c) v\<rparr>"

definition updateCanvasSize :: "canvas \<Rightarrow> canvas" where
  "updateCanvasSize c =
    (let containerWidth = clientWidth c;
         tw = (case traces c of
                 None \<Rightarrow> containerWidth
               | Some tr \<Rightarrow>
                  (case tr ''G'' of
                     None \<Rightarrow> containerWidth
                   | Some g \<Rightarrow> Math_ceil (js_times (Num (of_nat (length g))) (xScale c))));
         canvasWidth = Math_max tw containerWidth
     in c\<lparr>totalWidth := tw, canvas_width := canvasWidth\<rparr>)"

text \<open>The state the constructor leaves, for a container of the given width.\<close>

definition new_ChromatogramCanvas :: "jsnum \<Rightarrow> canvas" where
  "new_ChromatogramCanvas containerWidth =
    updateCanvasSize
      \<lparr>traces = None, rawTraces = None, sequence = [], peakLocations = [], qualityScores = [],
       channelOrder = [''G'', ''A'', ''T'', ''C''], scrollX = Num 0, xScale = Num 2,
       selection = (-1, -1), searchMatches = [], currentMatchIndex = -1, modifications = {},
       totalWidth = Num 0, canvas_width = Num 0, scrollLeft = Num 0,
       clientWidth = containerWidth, minXScale = Num (1 / 2), maxXScale = Num 10\<rparr>"

definition clearSearch :: "canvas \<Rightarrow> canvas" where
  "clearSearch c = c\<lparr>searchMatches := [], currentMatchIndex := -1\<rparr>"

text \<open>The argument of \<^verbatim>\<open>loadData\<close>; an absent property is \<open>None\<close>.\<close>

record abif_data =
  d_traces :: "(string \<rightharpoonup> int list) option"
  d_sequence :: "string option"
  d_peakLocations :: "jsint list option"
  d_qualityScores :: "int list option"
  d_channelOrder :: "string list option"

definition loadData :: "browser \<Rightarrow> canvas \<Rightarrow> abif_data \<Rightarrow> canvas" where
  "loadData br c d =
    (let c1 = c\<lparr>traces := d_traces d,
                sequence := (case d_sequence d of None \<Rightarrow> [] | Some s \<Rightarrow> s),
                peakLocations := (case d_peakLocations d of None \<Rightarrow> [] | Some ps \<Rightarrow> ps),
                qualityScores := (case d_qualityScores d of None \<Rightarrow> [] | Some qs \<Rightarrow> qs),
                channelOrder := (case d_channelOrder d of
                                   None \<Rightarrow> [''G'', ''A'', ''T'', ''C''] | Some co \<Rightarrow> co)\<rparr>;
         c2 = updateCanvasSize c1;
         c3 = set_scrollLeft br (c2\<lparr>scrollX := Num 0\<rparr>) (Num 0);
         c4 = clearSearch c3
     in c4\<lparr>modifications := {}\<rparr>)"

definition scrollToBase :: "browser \<Rightarrow> canvas \<Rightarrow> int \<Rightarrow> canvas" where
  "scrollToBase br c baseIndex =
    (if baseIndex < 0 \<or> baseIndex \<ge> int (length (peakLocations c)) then c
     else
       (let peakX = jsnum_of (js_peak (peakLocations c) baseIndex);
            x = js_times peakX (xScale c);
            c1 = set_scrollLeft br c (js_minus x (js_divide (clientWidth c) (Num 2)))
        in c1\<lparr>scrollX := scrollLeft c1\<rparr>))"

text \<open>
  The \<^verbatim>\<open>while (true)\<close> loop of \<^verbatim>\<open>search\<close>. Nothing in the loop bounds the
  number of its iterations, so the model is a partial function: \<open>None\<close> is
  a loop that never ends.
\<close>

partial_function (option) search_loop ::
    "jsstring \<Rightarrow> jsstring \<Rightarrow> nat \<Rightarrow> int \<Rightarrow> (int \<times> int) list \<Rightarrow> (int \<times> int) list option" where
  "search_loop upperPattern upperSequence patternLength startIndex matches =
    (if indexOf upperSequence upperPattern startIndex = -1 then Some matches
     else search_loop upperPattern upperSequence patternLength
            (indexOf upperSequence upperPattern startIndex + 1)
            (matches @ [(indexOf upperSequence upperPattern startIndex,
                         indexOf upperSequence upperPattern startIndex + int patternLength - 1)]))"

text \<open>
  \<^verbatim>\<open>search\<close> returns the number of matches and the canvas it leaves. Its
  first argument is the case conversion of the engine on strings that are
  not ASCII.
\<close>

definition search :: "unicode \<Rightarrow> browser \<Rightarrow> canvas \<Rightarrow> jsstring \<Rightarrow> (int \<times> canvas) option" where
  "search uc br c pattern =
    (let c1 = c\<lparr>searchMatches := [], currentMatchIndex := -1\<rparr>
     in if pattern = [] \<or> sequence c1 = [] then Some (0, c1)
        else
          (case search_loop (toUpperCase uc pattern) (toUpperCase uc (code_units (sequence c1)))
                  (length pattern) 0 [] of
             None \<Rightarrow> None
           | Some ms \<Rightarrow>
              (let c2 = c1\<lparr>searchMatches := ms\<rparr>;
                   c3 = (if length ms > 0
                         then scrollToBase br (c2\<lparr>currentMatchIndex := 0\<rparr>) (fst (ms ! 0))
                         else c2)
               in Some (int (length ms), c3))))"

definition setZoom :: "browser \<Rightarrow> canvas \<Rightarrow> jsnum \<Rightarrow> canvas" where
  "setZoom br c scale0 =
    (let scale = Math_max (minXScale c) (Math_min (maxXScale c) scale0)
     in if js_strict_neq scale (xScale c) then
          (let centerX = js_plus (scrollX c) (js_divide (clientWidth c) (Num 2));
               centerDataX = js_divide centerX (xScale c);
               c1 = updateCanvasSize (c\<lparr>xScale := scale\<rparr>);
               newCenterX = js_times centerDataX (xScale c1);
               c2 = set_scrollLeft br c1 (js_minus newCenterX (js_divide (clientWidth c1) (Num 2)))
           in c2\<lparr>scrollX := scrollLeft c2\<rparr>)
        else c)"

definition fitToView :: "browser \<Rightarrow> canvas \<Rightarrow> canvas" where
  "fitToView br c =
    (case traces c of
       None \<Rightarrow> c
     | Some tr \<Rightarrow>
        (case tr ''G'' of
           None \<Rightarrow> c
         | Some g \<Rightarrow>
            (let dataLength = Num (of_nat (length g));
                 containerWidth = clientWidth c
             in setZoom br c (js_divide containerWidth dataLength))))"

definition markModified :: "canvas \<Rightarrow> int \<Rightarrow> canvas" where
  "markModified c i =
    (if i \<ge> 0 \<and> i < int (length (sequence c))
     then c\<lparr>modifications := insert i (modifications c)\<rparr> else c)"

definition unmarkModified :: "canvas \<Rightarrow> int \<Rightarrow> canvas" where
  "unmarkModified c i =
    (if i \<in> modifications c then c\<lparr>modifications := modifications c - {i}\<rparr> else c)"

text \<open>
  What \<^verbatim>\<open>applyTrim\<close> returns: the success object with its five numbers,
  the failure object with its message, or the \<^verbatim>\<open>TypeError\<close> that
  \<^verbatim>\<open>this.traces.G\<close> throws when no trace object was loaded.
\<close>

datatype trim_result =
    Success int int int int int
  | Failure string
  | TypeError

definition trim_traces ::
    "string list \<Rightarrow> jsint \<Rightarrow> jsint \<Rightarrow> (string \<rightharpoonup> int list) \<times> (string \<rightharpoonup> int list) option
      \<Rightarrow> (string \<rightharpoonup> int list) \<times> (string \<rightharpoonup> int list) option" where
  "trim_traces order traceSliceStart traceSliceEnd trs =
    fold (\<lambda>nucleotide (tr, raw).
            ((case tr nucleotide of
                None \<Rightarrow> tr
              | Some a \<Rightarrow> tr(nucleotide \<mapsto> js_slice a traceSliceStart traceSliceEnd)),
             (case raw of
                None \<Rightarrow> None
              | Some r \<Rightarrow>
                 (case r nucleotide of
                    None \<Rightarrow> Some r
                  | Some a \<Rightarrow> Some (r(nucleotide \<mapsto> js_slice a traceSliceStart traceSliceEnd))))))
         order trs"

definition applyTrim :: "browser \<Rightarrow> canvas \<Rightarrow> int \<Rightarrow> int \<Rightarrow> trim_result \<times> canvas" where
  "applyTrim br c trimStart0 trimEnd0 =
    (if sequence c = [] \<or> trimStart0 < 0 \<or> trimEnd0 \<ge> int (length (sequence c))
     then (Failure ''Invalid trim range'', c)
     else
       (let trimStart = (if trimStart0 > trimEnd0 then trimEnd0 else trimStart0);
            trimEnd = (if trimStart0 > trimEnd0 then trimStart0 else trimEnd0);
            originalLength = int (length (sequence c))
        in case traces c of
             None \<Rightarrow> (TypeError, c)
           | Some tr \<Rightarrow>
              (let originalTraceLength = (case tr ''G'' of None \<Rightarrow> 0 | Some g \<Rightarrow> int (length g));
                   traceStart = js_peak (peakLocations c) trimStart;
                   traceEnd = js_peak (peakLocations c) trimEnd;
                   sequence1 = js_substring (sequence c) trimStart (trimEnd + 1);
                   quality1 = (if length (qualityScores c) > 0
                               then js_slice (qualityScores c) (Some trimStart) (Some (trimEnd + 1))
                               else qualityScores c);
                   tracePadding = 10;
                   traceSliceStart = jsint_max (Some 0) (jsint_minus traceStart (Some tracePadding));
                   traceSliceEnd = jsint_min (Some originalTraceLength)
                                     (jsint_plus (jsint_plus traceEnd (Some tracePadding)) (Some 1));
                   trs = trim_traces (channelOrder c) traceSliceStart traceSliceEnd (tr, rawTraces c);
                   peaks1 = map (\<lambda>pos. jsint_minus pos traceSliceStart)
                              (js_slice (peakLocations c) (Some trimStart) (Some (trimEnd + 1)));
                   c1 = c\<lparr>sequence := sequence1, qualityScores := quality1,
                           traces := Some (fst trs), rawTraces := snd trs,
                           peakLocations := peaks1,
                           selection := (-1, -1), searchMatches := [], currentMatchIndex := -1,
                           modifications := {}\<rparr>;
                   c2 = updateCanvasSize c1;
                   c3 = set_scrollLeft br (c2\<lparr>scrollX := Num 0\<rparr>) (Num 0)
               in (Success originalLength (int (length (sequence c3)))
                     (originalLength - int (length (sequence c3))) trimStart trimEnd,
                   c3))))"

section \<open>EditHistory.js\<close>

text \<open>
  A \<^verbatim>\<open>ChangeBaseCommand\<close>; the chromatogram and the file data it points to
  are the ones of the application state below, which are never null there.
\<close>

record command =
  index :: int
  oldBase :: string
  newBase :: string

text \<open>
  The application state the commands act on: \<^verbatim>\<open>fileData.sequence\<close>, the
  canvas, and the \<^verbatim>\<open>EditHistory\<close> with its two stacks, the last element
  of a list being the top of the stack.
\<close>

record app =
  fileData_sequence :: string
  chromatogram :: canvas
  undoStack :: "command list"
  redoStack :: "command list"
  maxSize :: int

text \<open>
  \<^verbatim>\<open>s.split('')\<close>, an assignment to element \<open>i\<close>, and \<^verbatim>\<open>join('')\<close>: an
  index past the end extends the array, the holes joining as empty strings,
  and a negative index sets a property that \<^verbatim>\<open>join\<close> does not see.
\<close>

definition split_set_join :: "string \<Rightarrow> int \<Rightarrow> string \<Rightarrow> string" where
  "split_set_join s i b =
    (if 0 \<le> i \<and> i < int (length s) then take (nat i) s @ b @ drop (nat i + 1) s
     else if i \<ge> int (length s) then s @ b
     else s)"

definition setBase :: "app \<Rightarrow> command \<Rightarrow> string \<Rightarrow> app" where
  "setBase a cmd base =
    (let actualBase = (if base = [] then ''N'' else base);
         sequence1 = split_set_join (fileData_sequence a) (index cmd) actualBase;
         ch = (chromatogram a)\<lparr>sequence := sequence1\<rparr>;
         ch1 = (if actualBase \<noteq> oldBase cmd then markModified ch (index cmd)
                else unmarkModified ch (index cmd))
     in a\<lparr>fileData_sequence := sequence1, chromatogram := ch1\<rparr>)"

definition command_execute :: "app \<Rightarrow> command \<Rightarrow> app" where
  "command_execute a cmd = setBase a cmd (newBase cmd)"




definition redo :: "app \<Rightarrow> bool \<times> app" where
  "redo a =
    (if length (redoStack a) = 0 then (False, a)
     else
       (let cmd = last (redoStack a);
            a1 = a\<lparr>redoStack := butlast (redoStack a)\<rparr>;
            a2 = command_execute a1 cmd
        in (True, a2\<lparr>undoStack := undoStack a2 @ [cmd]\<rparr>)))"


section \<open>Predicates of the statements\<close>

subsection \<open>Quality trimming\<close>

text \<open>
  The ten scores around position \<open>i\<close>: the five before it and the five
  after it, the score at \<open>i\<close> itself left out.
\<close>

definition window_scores :: "int list \<Rightarrow> int \<Rightarrow> int list" where
  "window_scores qs i = take 5 (drop (nat (i - 5)) qs) @ take 5 (drop (nat (i + 1)) qs)"

text \<open>
  The centered window average of position \<open>i\<close>: the mean of these ten
  scores in double arithmetic, the scores added up from left to right and
  the sum divided by 10.
\<close>

definition window_average :: "int list \<Rightarrow> int \<Rightarrow> jsnum" where
  "window_average qs i =
    js_div (foldl (\<lambda>sum q. js_add sum (Num (of_int q))) (Num 0) (window_scores qs i)) (Num 10)"

text \<open>The exact mean of the ten scores, a rational.\<close>

definition window_mean :: "int list \<Rightarrow> int \<Rightarrow> rat" where
  "window_mean qs i = of_int (sum_list (window_scores qs i)) / 10"

text \<open>
  Position \<open>i\<close> is \<^emph>\<open>good\<close> when its centered window average reaches the
  upper threshold, and \<^emph>\<open>bad\<close> when it is below the lower threshold.
\<close>

definition window_good :: "int list \<Rightarrow> jsnum \<Rightarrow> int \<Rightarrow> bool" where
  "window_good qs u i = js_ge (window_average qs i) u"

definition window_bad :: "int list \<Rightarrow> jsnum \<Rightarrow> int \<Rightarrow> bool" where
  "window_bad qs l i = js_lt (window_average qs i) l"

text \<open>One pass through the body of the scan, up to the test for the fall-off.\<close>

definition scan_step :: "int list \<Rightarrow> jsnum \<Rightarrow> int \<Rightarrow> scan_state \<Rightarrow> scan_state" where
  "scan_step qs u i st =
    (if window_good qs u i
     then st\<lparr>s_trimStart := (if s_trimStart st = -1 then i else s_trimStart st),
             s_lastGoodPosition := i\<rparr>
     else st)"

text \<open>The invariant of the scan before it looks at position \<open>i\<close>.\<close>

definition scan_inv :: "int list \<Rightarrow> jsnum \<Rightarrow> jsnum \<Rightarrow> int \<Rightarrow> scan_state \<Rightarrow> bool" where
  "scan_inv qs u l i st \<longleftrightarrow>
     \<not> s_foundFallOff st \<and>
     (if s_trimStart st = -1
      then s_lastGoodPosition st = -1 \<and> (\<forall>j. 5 \<le> j \<and> j < i \<longrightarrow> \<not> window_good qs u j)
      else 5 \<le> s_trimStart st \<and> s_trimStart st \<le> s_lastGoodPosition st \<and>
           s_lastGoodPosition st < i \<and>
           window_good qs u (s_trimStart st) \<and> window_good qs u (s_lastGoodPosition st) \<and>
           (\<forall>j. 5 \<le> j \<and> j < s_trimStart st \<longrightarrow> \<not> window_good qs u j) \<and>
           (\<forall>j. s_lastGoodPosition st < j \<and> j < i \<longrightarrow> \<not> window_good qs u j) \<and>
           (\<forall>j. s_trimStart st \<le> j \<and> j < i \<longrightarrow> \<not> window_bad qs l j))"

text \<open>What the scan has established when it ends.\<close>

definition scan_post :: "int list \<Rightarrow> jsnum \<Rightarrow> jsnum \<Rightarrow> scan_state \<Rightarrow> bool" where
  "scan_post qs u l r \<longleftrightarrow>
     (let n = int (length qs) - 6; s = s_trimStart r; g = s_lastGoodPosition r in
      if s = -1 then (\<forall>j. 5 \<le> j \<and> j \<le> n \<longrightarrow> \<not> window_good qs u j)
      else 5 \<le> s \<and> s \<le> g \<and> g \<le> n \<and> window_good qs u s \<and> window_good qs u g \<and>
           (\<forall>j. 5 \<le> j \<and> j < s \<longrightarrow> \<not> window_good qs u j) \<and>
           (if s_foundFallOff r
            then s_trimEnd r = g \<and>
                 (\<exists>f. s \<le> f \<and> f \<le> n \<and> window_bad qs l f \<and>
                      (\<forall>j. s \<le> j \<and> j < f \<longrightarrow> \<not> window_bad qs l j) \<and>
                      g \<le> f \<and> (\<forall>j. g < j \<and> j \<le> f \<longrightarrow> \<not> window_good qs u j))
            else (\<forall>j. s \<le> j \<and> j \<le> n \<longrightarrow> \<not> window_bad qs l j) \<and>
                 (\<forall>j. g < j \<and> j \<le> n \<longrightarrow> \<not> window_good qs u j)))"

subsection \<open>Search\<close>

text \<open>\<open>p\<close> occurs in \<open>s\<close> at index \<open>i\<close>.\<close>

definition occurs_at :: "'a list \<Rightarrow> 'a list \<Rightarrow> nat \<Rightarrow> bool" where
  "occurs_at s p i \<longleftrightarrow> i + length p \<le> length s \<and> take (length p) (drop i s) = p"

text \<open>
  Two code units are equal up to case: they are the same, or one is an
  upper-case ASCII letter (65 to 90) and the other its lower-case form.
  Two strings are equal up to case when they have the same length and
  their code units are equal up to case, position by position.
\<close>

definition ci_char :: "nat \<Rightarrow> nat \<Rightarrow> bool" where
  "ci_char a b \<longleftrightarrow>
     a = b \<or> (65 \<le> a \<and> a \<le> 90 \<and> b = a + 32) \<or> (65 \<le> b \<and> b \<le> 90 \<and> a = b + 32)"

definition ci_equal :: "jsstring \<Rightarrow> jsstring \<Rightarrow> bool" where
  "ci_equal a b \<longleftrightarrow> list_all2 ci_char a b"

text \<open>
  The start positions \<open>i\<close> of the sequence \<open>S\<close>, in increasing order, at which
  the slice \<open>S[i : i + len P]\<close> equals the pattern \<open>P\<close> up to case.
\<close>

definition match_starts :: "jsstring \<Rightarrow> jsstring \<Rightarrow> nat list" where
  "match_starts S P = filter (\<lambda>i. ci_equal (take (length P) (drop i S)) P) [0..<length S]"

definition match_at :: "jsstring \<Rightarrow> nat \<Rightarrow> int \<times> int" where
  "match_at P i = (int i, int i + int (length P) - 1)"

text \<open>A case conversion that leaves every string that is not ASCII as it is.\<close>

definition plain_unicode :: unicode where
  "plain_unicode s = s"

subsection \<open>Edit history\<close>









text \<open>The canvas shows the sequence of the file data.\<close>

definition in_sync :: "app \<Rightarrow> bool" where
  "in_sync a \<longleftrightarrow> sequence (chromatogram a) = fileData_sequence a"

subsection \<open>Chromatogram model\<close>

text \<open>
  The invariant of the data model: the three parallel arrays have one
  length, and the peak locations are non-decreasing.
\<close>

definition model_invariant :: "canvas \<Rightarrow> bool" where
  "model_invariant c \<longleftrightarrow>
     length (sequence c) = length (qualityScores c) \<and>
     length (qualityScores c) = length (peakLocations c) \<and>
     sorted_wrt jsint_le (peakLocations c)"

text \<open>A browser that keeps the value assigned to \<^verbatim>\<open>scrollLeft\<close> as it is.\<close>

definition plain_browser :: browser where
  "plain_browser w cw v = v"

text \<open>
  Example data: five bases with their scores and peaks and four traces of 60
  samples; the same file without its quality tag; and the canvas that has
  loaded the first.
\<close>

definition five_bases :: abif_data where
  "five_bases =
    \<lparr>d_traces = Some [''G'' \<mapsto> replicate 60 1, ''A'' \<mapsto> replicate 60 2,
                      ''T'' \<mapsto> replicate 60 3, ''C'' \<mapsto> replicate 60 4],
     d_sequence = Some ''ACGTA'',
     d_peakLocations = Some [Some 10, Some 20, Some 30, Some 40, Some 50],
     d_qualityScores = Some [20, 30, 40, 30, 20],
     d_channelOrder = Some [''G'', ''A'', ''T'', ''C'']\<rparr>"

definition five_bases_no_quality :: abif_data where
  "five_bases_no_quality = five_bases\<lparr>d_qualityScores := None\<rparr>"

definition canvas_five :: canvas where
  "canvas_five = loadData plain_browser (new_ChromatogramCanvas (Num 800)) five_bases"

subsection \<open>ABIF parser\<close>

text \<open>The bytes of the format signature \<open>ABIF\<close>.\<close>

definition ABIF_magic :: "8 word list" where
  "ABIF_magic = [0x41, 0x42, 0x49, 0x46]"

text \<open>
  The width in bytes at which \<^verbatim>\<open>_extractTypedArray\<close> reads the elements of
  the seven fixed-size element types it serves; \<open>None\<close> for every other
  type code.
\<close>

definition typed_array_width :: "nat \<Rightarrow> nat option" where
  "typed_array_width ty =
    (if ty = ABIF_TYPE_BYTE \<or> ty = ABIF_TYPE_CHAR then Some 1
     else if ty = ABIF_TYPE_WORD \<or> ty = ABIF_TYPE_SHORT then Some 2
     else if ty = ABIF_TYPE_LONG \<or> ty = ABIF_TYPE_FLOAT then Some 4
     else if ty = ABIF_TYPE_DOUBLE then Some 8
     else None)"

text \<open>
  The elements of the entry lie inside the bytes they are read from: the
  four inline bytes when the declared size is at most 4, the file buffer
  from the data offset otherwise.
\<close>

definition data_in_bounds :: "parser \<Rightarrow> dir_entry \<Rightarrow> nat \<Rightarrow> bool" where
  "data_in_bounds p e w \<longleftrightarrow>
     (if datasize e \<le> 4 then numelements e * w \<le> 4
      else dataoffset e + numelements e * w \<le> length (buffer p))"

text \<open>
  Every cached value is the value extracted from the entry its key is
  looked up to. The cache of a new parser is empty.
\<close>

definition cache_consistent :: "parser \<Rightarrow> bool" where
  "cache_consistent p \<longleftrightarrow>
     (\<forall>nm nr v. tags p (getTagKey nm nr) = Some v \<longrightarrow>
        (\<exists>e. findEntry p nm nr = Some e \<and> extractData p e = Some v))"

text \<open>
  A parser with two entries whose data are inline: one 16-bit signed element
  with the bytes \<open>FF FE\<close>, and two with the bytes \<open>00 01 80 00\<close>.
\<close>

definition entry_one :: dir_entry where
  "entry_one = \<lparr>name = ''PLOC'', number = 1, elementtype = 4, elementsize = 2,
                numelements = 1, datasize = 2, dataoffset = 4294836224, datahandle = 0\<rparr>"

definition entry_two :: dir_entry where
  "entry_two = \<lparr>name = ''PLOC'', number = 2, elementtype = 4, elementsize = 2,
                numelements = 2, datasize = 4, dataoffset = 98304, datahandle = 0\<rparr>"

definition parser_two :: parser where
  "parser_two = \<lparr>buffer = [], header = None, directory = [entry_one, entry_two],
                 tags = Map.empty, parsed = True\<rparr>"

text \<open>
  The four bytes of a date or a time lie inside the bytes they are read
  from.
\<close>

definition record_in_bounds :: "parser \<Rightarrow> dir_entry \<Rightarrow> bool" where
  "record_in_bounds p e \<longleftrightarrow> datasize e \<le> 4 \<or> dataoffset e + 4 \<le> length (buffer p)"

text \<open>
  A parser over a buffer of eight bytes with three entries: one 64-bit
  float whose data offset is past the end of the buffer, two dates at offset
  0 (2022-01-02 and 2022-03-04), and a time whose data are inline
  (10:20:30.40).
\<close>

definition entry_double :: dir_entry where
  "entry_double = \<lparr>name = ''DBL1'', number = 1, elementtype = 8, elementsize = 8,
                   numelements = 1, datasize = 8, dataoffset = 128, datahandle = 0\<rparr>"

definition entry_date :: dir_entry where
  "entry_date = \<lparr>name = ''RUND'', number = 1, elementtype = 10, elementsize = 4,
                 numelements = 2, datasize = 8, dataoffset = 0, datahandle = 0\<rparr>"

definition entry_time :: dir_entry where
  "entry_time = \<lparr>name = ''RUNT'', number = 1, elementtype = 11, elementsize = 4,
                 numelements = 1, datasize = 4, dataoffset = 169090600, datahandle = 0\<rparr>"

definition parser_three :: parser where
  "parser_three = \<lparr>buffer = [0x07, 0xE6, 0x01, 0x02, 0x07, 0xE6, 0x03, 0x04], header = None,
                   directory = [entry_double, entry_date, entry_time],
                   tags = Map.empty, parsed = True\<rparr>"

subsection \<open>Encoding a directory entry\<close>


definition be16 :: "nat \<Rightarrow> 8 word list" where
  "be16 n = [of_nat (n div 256), of_nat n]"

definition be64 :: "nat \<Rightarrow> 8 word list" where
  "be64 n = setUint32_view (n div 4294967296) @ setUint32_view n"










text \<open>
  The value the decoder gives back: the elements, a single one bare and any
  other number of them as an array.
\<close>

definition scalar_or_array :: "num list \<Rightarrow> tag_value" where
  "scalar_or_array vs = (if length vs = 1 then Number (vs ! 0) else Array vs)"



text \<open>The number a string of decimal digits denotes.\<close>

definition nat_of_digits :: "string \<Rightarrow> nat" where
  "nat_of_digits s = foldl (\<lambda>acc c. acc * 10 + (of_char c - 48)) 0 s"

section \<open>Properties of the quality trimmer\<close>

lemma take5_drop:
  assumes "k + 5 \<le> length xs"
  shows "take 5 (drop k xs) = [xs ! k, xs ! (k + 1), xs ! (k + 2), xs ! (k + 3), xs ! (k + 4)]"
proof -
  have "length (take 5 (drop k xs)) = 5" using assms by simp
  moreover have "\<And>j. j < 5 \<Longrightarrow> take 5 (drop k xs) ! j = xs ! (k + j)" using assms by simp
  ultimately show ?thesis
    by (simp add: list_eq_iff_nth_eq nth_Cons' less_Suc_eq eval_nat_numeral add.commute)
qed

lemma js_score_nth:
  "0 \<le> j \<Longrightarrow> j < int (length qs) \<Longrightarrow> js_score qs j = Num (of_int (qs ! nat j))"
  by (simp add: js_score_def js_nth_def)

lemma window_scores_nth:
  assumes "5 \<le> i" "i \<le> int (length qs) - 6"
  shows "window_scores qs i =
    [qs ! nat (i - 5), qs ! nat (i - 4), qs ! nat (i - 3), qs ! nat (i - 2), qs ! nat (i - 1),
     qs ! nat (i + 1), qs ! nat (i + 2), qs ! nat (i + 3), qs ! nat (i + 4), qs ! nat (i + 5)]"
proof -
  have a: "nat (i - 5) + 5 \<le> length qs" "nat (i + 1) + 5 \<le> length qs" using assms by auto
  have n: "nat (i - 5) + 1 = nat (i - 4)" "nat (i - 5) + 2 = nat (i - 3)"
    "nat (i - 5) + 3 = nat (i - 2)" "nat (i - 5) + 4 = nat (i - 1)"
    "nat (i + 1) + 1 = nat (i + 2)" "nat (i + 1) + 2 = nat (i + 3)"
    "nat (i + 1) + 3 = nat (i + 4)" "nat (i + 1) + 4 = nat (i + 5)"
    using assms by auto
  show ?thesis unfolding window_scores_def take5_drop[OF a(1)] take5_drop[OF a(2)] n by simp
qed

lemma centeredWindowAverage_window:
  assumes "5 \<le> i" "i \<le> int (length qs) - 6"
  shows "centeredWindowAverage qs i = window_average qs i"
proof -
  have s: "js_score qs (i - 5) = Num (of_int (qs ! nat (i - 5)))"
    "js_score qs (i - 4) = Num (of_int (qs ! nat (i - 4)))"
    "js_score qs (i - 3) = Num (of_int (qs ! nat (i - 3)))"
    "js_score qs (i - 2) = Num (of_int (qs ! nat (i - 2)))"
    "js_score qs (i - 1) = Num (of_int (qs ! nat (i - 1)))"
    "js_score qs (i + 1) = Num (of_int (qs ! nat (i + 1)))"
    "js_score qs (i + 2) = Num (of_int (qs ! nat (i + 2)))"
    "js_score qs (i + 3) = Num (of_int (qs ! nat (i + 3)))"
    "js_score qs (i + 4) = Num (of_int (qs ! nat (i + 4)))"
    "js_score qs (i + 5) = Num (of_int (qs ! nat (i + 5)))"
    using assms by (simp_all add: js_score_nth)
  show ?thesis
    unfolding centeredWindowAverage_def window_average_def window_scores_nth[OF assms] s Let_def
    by simp
qed

lemma round_half_even_int: "round_half_even (of_int m) = m"
  by (simp add: round_half_even_def)

lemma floor_log2_int:
  assumes "0 < n"
  shows "floor_log2 (of_int n) = bitlen n - 1"
proof -
  have b: "1 \<le> bitlen n" using assms bitlen_eq_zero_iff[of n] bitlen_nonneg[of n] by linarith
  have "(2::int) ^ nat (bitlen n - 1) \<le> n" using bitlen_bounds[OF assms] by simp
  then have "(of_int ((2::int) ^ nat (bitlen n - 1)) :: rat) \<le> of_int n"
    by (simp only: of_int_le_iff)
  then have "pow2 (bitlen n - 1) \<le> of_int n" using b by (simp add: pow2_def)
  moreover have "bitlen 1 = 1" by (simp add: bitlen_alt_def)
  ultimately show ?thesis by (simp add: floor_log2_def Let_def)
qed

lemma round_double_pos_int:
  assumes pos: "0 < n" and lt: "n < 2 ^ 53"
  shows "round_double (of_int n) = Num (of_int n)"
proof -
  define d where "d = bitlen n - 1"
  have b: "1 \<le> bitlen n" using pos bitlen_eq_zero_iff[of n] bitlen_nonneg[of n] by linarith
  have "bitlen n \<le> 53" using lt bitlen_le_iff_power[of n 53] by simp
  then have d: "0 \<le> d" "d \<le> 52" using b by (simp_all add: d_def)
  have fl: "floor_log2 \<bar>of_int n\<bar> = d" using pos floor_log2_int[OF pos] by (simp add: d_def)
  have ulp: "pow2 (max d (- 1022) - 52) = 1 / 2 ^ nat (52 - d)"
    using d by (auto simp: pow2_def max_def)
  have q: "\<bar>of_int n :: rat\<bar> / (1 / 2 ^ nat (52 - d)) = of_int (n * 2 ^ nat (52 - d))"
    using pos by simp
  have r: "(of_int (round_half_even (\<bar>of_int n :: rat\<bar> / (1 / 2 ^ nat (52 - d)))) :: rat)
             * (1 / 2 ^ nat (52 - d)) = of_int n"
    unfolding q round_half_even_int by simp
  have "(of_int n :: rat) < of_int (2 ^ 53)" using lt by (simp only: of_int_less_iff)
  also have "(of_int (2 ^ 53) :: rat) \<le> pow2 1024" by (simp add: pow2_def)
  finally have big: "\<not> pow2 1024 \<le> (of_int n :: rat)" by simp
  have ne: "(of_int n :: rat) \<noteq> 0" using pos by simp
  show ?thesis
    unfolding round_double_def Let_def fl ulp r using ne big pos by simp
qed

lemma round_double_int:
  assumes "\<bar>k\<bar> < 2 ^ 53"
  shows "round_double (of_int k) = Num (of_int k)"
proof -
  consider "k = 0" | "0 < k" | "k < 0" by linarith
  then show ?thesis
  proof cases
    case 1 then show ?thesis by (simp add: round_double_def)
  next
    case 2 then show ?thesis using assms by (intro round_double_pos_int) simp_all
  next
    case 3
    then have p: "0 < - k" "- k < 2 ^ 53" using assms by simp_all
    have sym: "round_double (- x) = js_neg (round_double x)" for x
      by (simp add: round_double_def Let_def)
    have "round_double (of_int k) = js_neg (round_double (of_int (- k)))"
      using sym[of "of_int (- k)"] by simp
    then show ?thesis using round_double_pos_int[OF p] by simp
  qed
qed

lemma js_add_int:
  "\<bar>a + b\<bar> < 2 ^ 53 \<Longrightarrow> js_add (Num (of_int a)) (Num (of_int b)) = Num (of_int (a + b))"
  using round_double_int[of "a + b"] by (simp add: js_add_def)

lemma foldl_js_add_int:
  assumes "\<forall>q\<in>set xs. \<bar>q\<bar> \<le> B" and "\<bar>s\<bar> + int (length xs) * B < 2 ^ 53"
  shows "foldl (\<lambda>sum q. js_add sum (Num (of_int q))) (Num (of_int s)) xs
           = Num (of_int (s + sum_list xs))"
  using assms
proof (induction xs arbitrary: s)
  case Nil
  then show ?case by simp
next
  case (Cons x xs)
  have x: "\<bar>x\<bar> \<le> B" using Cons.prems(1) by simp
  have B0: "0 \<le> B" using x by linarith
  have nn: "0 \<le> int (length xs) * B" using B0 by simp
  have l: "\<bar>s\<bar> + B + int (length xs) * B < 2 ^ 53"
    using Cons.prems(2) by (simp add: algebra_simps)
  have tri: "\<bar>s + x\<bar> \<le> \<bar>s\<bar> + \<bar>x\<bar>" by (rule abs_triangle_ineq)
  have "\<bar>s + x\<bar> < 2 ^ 53" using x nn l tri by linarith
  then have st: "js_add (Num (of_int s)) (Num (of_int x)) = Num (of_int (s + x))"
    by (rule js_add_int)
  have "\<bar>s + x\<bar> + int (length xs) * B < 2 ^ 53" using x l tri by linarith
  with Cons.IH[of "s + x"] Cons.prems(1) show ?case by (simp add: st add.assoc)
qed

lemma window_scores_length: "length (window_scores qs i) \<le> 10"
  by (simp add: window_scores_def)

lemma window_scores_subset: "set (window_scores qs i) \<subseteq> set qs"
  by (auto simp: window_scores_def dest: in_set_takeD in_set_dropD)

lemma window_average_exact:
  assumes "\<forall>q\<in>set qs. \<bar>q\<bar> \<le> 2 ^ 49"
  shows "window_average qs i = round_double (window_mean qs i)"
proof -
  have a: "\<forall>q\<in>set (window_scores qs i). \<bar>q\<bar> \<le> 2 ^ 49"
    using assms window_scores_subset[of qs i] by blast
  have "int (length (window_scores qs i)) * 2 ^ 49 \<le> 10 * 2 ^ 49"
    using window_scores_length[of qs i] by simp
  then have b: "\<bar>0::int\<bar> + int (length (window_scores qs i)) * 2 ^ 49 < 2 ^ 53" by simp
  from foldl_js_add_int[OF a b] show ?thesis
    by (simp add: window_average_def window_mean_def js_div_def)
qed


lemma scan_break_post:
  assumes inv: "scan_inv qs u l i st" and i5: "5 \<le> i" and le: "i \<le> int (length qs) - 6"
    and ne: "s_trimStart (scan_step qs u i st) \<noteq> -1" and b: "window_bad qs l i"
  shows "scan_post qs u l
           ((scan_step qs u i st)\<lparr>s_trimEnd := s_lastGoodPosition (scan_step qs u i st),
                                   s_foundFallOff := True\<rparr>)"
proof (cases "window_good qs u i")
  case True
  show ?thesis
  proof (cases "s_trimStart st = -1")
    case t: True
    with True inv i5 le b show ?thesis
      by (simp add: scan_step_def scan_post_def scan_inv_def Let_def) (intro exI[of _ i], auto)
  next
    case f: False
    with True inv i5 le b show ?thesis
      by (simp add: scan_step_def scan_post_def scan_inv_def Let_def) (intro exI[of _ i], auto)
  qed
next
  case False
  with ne have f: "s_trimStart st \<noteq> -1" by (simp add: scan_step_def)
  have "\<forall>j. s_lastGoodPosition st < j \<and> j \<le> i \<longrightarrow> \<not> window_good qs u j"
  proof (intro allI impI)
    fix j assume "s_lastGoodPosition st < j \<and> j \<le> i"
    then have "(s_lastGoodPosition st < j \<and> j < i) \<or> j = i" by auto
    then show "\<not> window_good qs u j" using False inv f by (auto simp: scan_inv_def)
  qed
  with f False inv i5 le b show ?thesis
    by (simp add: scan_step_def scan_post_def scan_inv_def Let_def) (intro exI[of _ i], auto)
qed

lemma scan_step_inv:
  assumes inv: "scan_inv qs u l i st" and i5: "5 \<le> i"
    and cont: "\<not> (s_trimStart (scan_step qs u i st) \<noteq> -1 \<and> window_bad qs l i)"
  shows "scan_inv qs u l (i + 1) (scan_step qs u i st)"
proof (cases "window_good qs u i")
  case True
  with cont have nb: "\<not> window_bad qs l i"
    using i5 by (auto simp: scan_step_def split: if_splits)
  show ?thesis
  proof (cases "s_trimStart st = -1")
    case t: True
    with True inv i5 nb show ?thesis
      by (auto simp: scan_step_def scan_inv_def order_le_less[where y = i])
  next
    case f: False
    with True inv i5 nb show ?thesis
      by (auto simp: scan_step_def scan_inv_def order_le_less[where y = i])
  qed
next
  case False
  show ?thesis
  proof (cases "s_trimStart st = -1")
    case t: True
    with False inv i5 show ?thesis
      by (auto simp: scan_step_def scan_inv_def order_le_less[where y = i])
  next
    case f: False
    with False cont have nb: "\<not> window_bad qs l i" by (simp add: scan_step_def)
    with f False inv i5 show ?thesis
      by (auto simp: scan_step_def scan_inv_def order_le_less[where y = i])
  qed
qed

lemma scan_loop_unfold:
  assumes "5 \<le> i"
  shows "scan_loop qs u l i st =
    (if i \<le> int (length qs) - 6 then
       (if s_trimStart (scan_step qs u i st) \<noteq> -1 \<and> window_bad qs l i
        then (scan_step qs u i st)\<lparr>s_trimEnd := s_lastGoodPosition (scan_step qs u i st),
                                    s_foundFallOff := True\<rparr>
        else scan_loop qs u l (i + 1) (scan_step qs u i st))
     else st)"
proof (cases "i \<le> int (length qs) - 6")
  case True
  show ?thesis
    by (subst scan_loop.simps)
      (simp add: True scan_step_def window_good_def window_bad_def Let_def
         centeredWindowAverage_window[OF assms True, symmetric])
next
  case False
  then show ?thesis by (subst scan_loop.simps) simp
qed

lemma scan_exit_post:
  assumes "scan_inv qs u l i st" and "i = int (length qs) - 5"
  shows "scan_post qs u l st"
  using assms by (auto simp: scan_inv_def scan_post_def Let_def)

lemma scan_loop_post:
  "scan_inv qs u l i st \<Longrightarrow> 5 \<le> i \<Longrightarrow> i \<le> int (length qs) - 5 \<Longrightarrow>
   scan_post qs u l (scan_loop qs u l i st)"
proof (induction "nat (int (length qs) - 5 - i)" arbitrary: i st)
  case 0
  then have "i = int (length qs) - 5" by simp
  moreover from this have "scan_loop qs u l i st = st"
    by (subst scan_loop_unfold) (use 0 in simp_all)
  ultimately show ?case using 0 by (simp add: scan_exit_post)
next
  case (Suc k)
  then have le: "i \<le> int (length qs) - 6" by simp
  show ?case
  proof (cases "s_trimStart (scan_step qs u i st) \<noteq> -1 \<and> window_bad qs l i")
    case True
    then have "scan_loop qs u l i st =
        (scan_step qs u i st)\<lparr>s_trimEnd := s_lastGoodPosition (scan_step qs u i st),
                               s_foundFallOff := True\<rparr>"
      using le by (subst scan_loop_unfold[OF Suc.prems(2)]) simp
    then show ?thesis using scan_break_post[OF Suc.prems(1,2) le] True by simp
  next
    case False
    have "scan_post qs u l (scan_loop qs u l (i + 1) (scan_step qs u i st))"
    proof (rule Suc.hyps(1))
      show "k = nat (int (length qs) - 5 - (i + 1))" using Suc.hyps(2) by simp
      show "scan_inv qs u l (i + 1) (scan_step qs u i st)"
        using Suc.prems False by (intro scan_step_inv) simp_all
      show "5 \<le> i + 1" using Suc.prems by simp
      show "i + 1 \<le> int (length qs) - 5" using le by simp
    qed
    moreover have "scan_loop qs u l i st = scan_loop qs u l (i + 1) (scan_step qs u i st)"
      by (subst scan_loop_unfold[OF Suc.prems(2)]) (simp only: le False if_True if_False)
    ultimately show ?thesis by simp
  qed
qed

lemma scan_init:
  "scan_inv qs u l 5
     \<lparr>s_trimStart = -1, s_lastGoodPosition = -1, s_trimEnd = e, s_foundFallOff = False\<rparr>"
  by (auto simp add: scan_inv_def)

lemma pow2_powi: "pow2 k = 2 powi k"
  by (simp add: pow2_def power_int_def field_simps)

lemma pow2_pos: "0 < pow2 k"
  by (simp add: pow2_def)

lemma pow2_nat: "0 \<le> k \<Longrightarrow> pow2 k = 2 ^ nat k"
  by (simp add: pow2_def)

lemma pow2_less_iff: "pow2 i < pow2 j \<longleftrightarrow> i < j"
proof
  assume "i < j" then show "pow2 i < pow2 j"
    unfolding pow2_powi by (intro power_int_strict_increasing) simp_all
next
  assume a: "pow2 i < pow2 j"
  show "i < j"
  proof (rule ccontr)
    assume "\<not> i < j"
    then have "j \<le> i" by simp
    then have "pow2 j \<le> pow2 i" unfolding pow2_powi by (intro power_int_increasing) simp_all
    with a show False by simp
  qed
qed

lemma pow2_diff: "pow2 (i - j) = pow2 i / pow2 j"
  unfolding pow2_powi by (simp add: power_int_diff)

lemma floor_log2_bounds:
  assumes "0 < a"
  shows "pow2 (floor_log2 a) \<le> a \<and> a < pow2 (floor_log2 a + 1)"
proof -
  obtain p q where pq: "quotient_of a = (p, q)" by (cases "quotient_of a")
  then have q: "0 < q" and a: "a = of_int p / of_int q"
    by (simp_all add: quotient_of_denom_pos quotient_of_div)
  have p: "0 < p" using assms q a by (simp add: zero_less_divide_iff)
  define bp where "bp = bitlen p"
  define bq where "bq = bitlen q"
  have bp1: "1 \<le> bp" using p bitlen_eq_zero_iff[of p] bitlen_nonneg[of p] unfolding bp_def by linarith
  have bq1: "1 \<le> bq" using q bitlen_eq_zero_iff[of q] bitlen_nonneg[of q] unfolding bq_def by linarith
  have pb: "2 ^ nat (bp - 1) \<le> p" "p < 2 ^ nat bp" using bitlen_bounds[OF p] by (simp_all add: bp_def)
  have qb: "2 ^ nat (bq - 1) \<le> q" "q < 2 ^ nat bq" using bitlen_bounds[OF q] by (simp_all add: bq_def)
  have pl: "pow2 (bp - 1) \<le> of_int p"
  proof -
    have "(of_int (2 ^ nat (bp - 1)) :: rat) \<le> of_int p" using pb(1) by (simp only: of_int_le_iff)
    then show ?thesis using bp1 by (simp add: pow2_nat)
  qed
  have pu: "of_int p < pow2 bp"
  proof -
    have "(of_int p :: rat) < of_int (2 ^ nat bp)" using pb(2) by (simp only: of_int_less_iff)
    then show ?thesis using bp1 by (simp add: pow2_nat)
  qed
  have ql: "pow2 (bq - 1) \<le> of_int q"
  proof -
    have "(of_int (2 ^ nat (bq - 1)) :: rat) \<le> of_int q" using qb(1) by (simp only: of_int_le_iff)
    then show ?thesis using bq1 by (simp add: pow2_nat)
  qed
  have qu: "of_int q < pow2 bq"
  proof -
    have "(of_int q :: rat) < of_int (2 ^ nat bq)" using qb(2) by (simp only: of_int_less_iff)
    then show ?thesis using bq1 by (simp add: pow2_nat)
  qed
  have up: "a < pow2 (bp - bq + 1)"
  proof -
    have "of_int p / of_int q < pow2 bp / pow2 (bq - 1)"
      using p pu ql pow2_pos[of "bq - 1"] by (intro frac_less) simp_all
    also have "\<dots> = pow2 (bp - (bq - 1))" by (simp only: pow2_diff)
    finally show ?thesis unfolding a by (simp add: algebra_simps)
  qed
  have lo: "pow2 (bp - bq - 1) < a"
  proof -
    have "pow2 (bp - 1) / pow2 bq < of_int p / of_int q"
      using pl qu q pow2_pos[of "bp - 1"] by (intro frac_less2) simp_all
    moreover have "pow2 (bp - 1) / pow2 bq = pow2 (bp - 1 - bq)" by (simp only: pow2_diff)
    ultimately show ?thesis unfolding a by (simp add: algebra_simps)
  qed
  have fl: "floor_log2 a = (if pow2 (bp - bq) \<le> a then bp - bq else bp - bq - 1)"
    by (simp add: floor_log2_def pq bp_def bq_def Let_def)
  show ?thesis
  proof (cases "pow2 (bp - bq) \<le> a")
    case True
    then show ?thesis using up fl by simp
  next
    case False
    then show ?thesis using lo fl by simp
  qed
qed

lemma floor_log2_eq:
  assumes "pow2 e \<le> a" "a < pow2 (e + 1)"
  shows "floor_log2 a = e"
proof -
  have pos: "0 < a" using assms(1) pow2_pos[of e] by simp
  from floor_log2_bounds[OF pos]
  have 1: "pow2 (floor_log2 a) \<le> a" and 2: "a < pow2 (floor_log2 a + 1)" by simp_all
  have "pow2 e < pow2 (floor_log2 a + 1)" using assms(1) 2 by simp
  then have "e < floor_log2 a + 1" by (simp only: pow2_less_iff)
  moreover have "pow2 (floor_log2 a) < pow2 (e + 1)" using 1 assms(2) by simp
  then have "floor_log2 a < e + 1" by (simp only: pow2_less_iff)
  ultimately show ?thesis by simp
qed

lemma round_double_normal:
  assumes "pow2 e \<le> x" "x < pow2 (e + 1)" "- 1022 \<le> e" "e \<le> 1022"
  shows "round_double x = Num (of_int (round_half_even (x / pow2 (e - 52))) * pow2 (e - 52))"
proof -
  have pos: "0 < x" using assms(1) pow2_pos[of e] by simp
  have fl: "floor_log2 \<bar>x\<bar> = e" using pos floor_log2_eq[OF assms(1,2)] by simp
  have mx: "max e (- 1022) = e" using assms(3) by simp
  define y where "y = x / pow2 (e - 52)"
  have yb: "y < pow2 53"
  proof -
    have "y < pow2 (e + 1) / pow2 (e - 52)"
      unfolding y_def using assms(2) pow2_pos[of "e - 52"] by (simp add: divide_strict_right_mono)
    also have "\<dots> = pow2 (e + 1 - (e - 52))" by (simp only: pow2_diff)
    finally show ?thesis by simp
  qed
  have r1: "round_half_even y \<le> \<lfloor>y\<rfloor> + 1" by (simp add: round_half_even_def Let_def)
  have "y < of_int 9007199254740992" using yb by (simp add: pow2_def)
  then have r2: "\<lfloor>y\<rfloor> < 9007199254740992" by (simp only: floor_less_iff)
  have m: "round_half_even y \<le> 9007199254740992" using r1 r2 by linarith
  have "(of_int (round_half_even y) :: rat) \<le> of_int 9007199254740992"
    using m by (simp only: of_int_le_iff)
  then have "of_int (round_half_even y) \<le> pow2 53" by (simp add: pow2_def)
  then have "of_int (round_half_even y) * pow2 (e - 52) \<le> pow2 53 * pow2 (e - 52)"
    using pow2_pos[of "e - 52"] by (simp add: mult_right_mono)
  also have "pow2 53 * pow2 (e - 52) = pow2 (e + 1)"
  proof -
    have "pow2 (53 + (e - 52)) = pow2 53 * pow2 (e - 52)"
      unfolding pow2_powi by (rule power_int_add) simp
    moreover have "53 + (e - 52) = e + 1" by simp
    ultimately show ?thesis by (simp only:)
  qed
  also have "pow2 (e + 1) < pow2 1024" using assms(4) by (simp only: pow2_less_iff)
  finally have small: "\<not> pow2 1024 \<le> of_int (round_half_even y) * pow2 (e - 52)" by simp
  show ?thesis
    unfolding round_double_def Let_def fl mx using pos small by (simp add: y_def)
qed

lemma round_half_even_near:
  assumes "\<bar>y - of_int m\<bar> < 1 / 2"
  shows "round_half_even y = m"
proof (cases "of_int m \<le> y")
  case True
  then have "\<lfloor>y\<rfloor> = m" using assms by (intro floor_unique) (simp_all add: abs_if split: if_splits)
  then show ?thesis using assms True by (simp add: round_half_even_def Let_def abs_if)
next
  case False
  then have "\<lfloor>y\<rfloor> = m - 1" using assms by (intro floor_unique) (simp_all add: abs_if split: if_splits)
  then show ?thesis using assms False by (simp add: round_half_even_def Let_def abs_if)
qed

lemma double_24_1: "round_double (241 / 10) = Num (3391773469363405 / 140737488355328)"
proof -
  have "round_double (241 / 10) =
      Num (of_int (round_half_even ((241 / 10) / pow2 (4 - 52))) * pow2 (4 - 52))"
    by (rule round_double_normal) (simp_all add: pow2_def)
  moreover have "round_half_even ((241 / 10) / pow2 (4 - 52)) = 6783546938726810"
    by (rule round_half_even_near) (simp add: pow2_def)
  ultimately show ?thesis by (simp add: pow2_def)
qed

lemma double_25_3: "round_double (253 / 10) = Num (7121316910779597 / 281474976710656)"
proof -
  have "round_double (253 / 10) =
      Num (of_int (round_half_even ((253 / 10) / pow2 (4 - 52))) * pow2 (4 - 52))"
    by (rule round_double_normal) (simp_all add: pow2_def)
  moreover have "round_half_even ((253 / 10) / pow2 (4 - 52)) = 7121316910779597"
    by (rule round_half_even_near) (simp add: pow2_def)
  ultimately show ?thesis by (simp add: pow2_def)
qed


lemma pow2_le_iff: "pow2 i \<le> pow2 j \<longleftrightarrow> i \<le> j"
  using pow2_less_iff[of j i] by (simp add: not_less[symmetric])

lemma pow2_add: "pow2 (i + j) = pow2 i * pow2 j"
  unfolding pow2_powi by (rule power_int_add) simp

lemma round_half_even_le: "y \<le> of_int N \<Longrightarrow> round_half_even y \<le> N"
proof (cases "y = of_int N")
  case True
  then show ?thesis by (simp add: round_half_even_int)
next
  case False
  assume "y \<le> of_int N"
  with False have "y < of_int N" by simp
  then have "\<lfloor>y\<rfloor> < N" by (simp only: floor_less_iff)
  moreover have "round_half_even y \<le> \<lfloor>y\<rfloor> + 1" by (simp add: round_half_even_def Let_def)
  ultimately show ?thesis by linarith
qed

lemma round_half_even_ge: "of_int N \<le> y \<Longrightarrow> N \<le> round_half_even y"
proof -
  assume "of_int N \<le> y"
  then have "N \<le> \<lfloor>y\<rfloor>" by (simp only: le_floor_iff)
  moreover have "\<lfloor>y\<rfloor> \<le> round_half_even y" by (simp add: round_half_even_def Let_def)
  ultimately show ?thesis by linarith
qed

text \<open>The rounded magnitude of a positive rational, as \<open>round_double\<close> computes it.\<close>

lemma round_double_pos:
  assumes "0 < x"
  shows "round_double x =
    (let u = pow2 (max (floor_log2 x) (- 1022) - 52);
         r = of_int (round_half_even (x / u)) * u
     in if pow2 1024 \<le> r then PosInf else Num r)"
  using assms by (simp add: round_double_def Let_def)

lemma dyadic_product:
  assumes "k \<le> q"
  shows "of_int (M * 2 ^ nat (q - k)) * pow2 k = of_int M * pow2 q"
proof -
  have "pow2 (q - k) * pow2 k = pow2 (q - k + k)" by (simp only: pow2_add)
  then have "pow2 (q - k) * pow2 k = pow2 q" by simp
  moreover have "pow2 (q - k) = 2 ^ nat (q - k)" using assms by (simp add: pow2_nat)
  ultimately have "2 ^ nat (q - k) * pow2 k = pow2 q" by simp
  then have "of_int M * (2 ^ nat (q - k) * pow2 k) = of_int M * pow2 q" by simp
  then show ?thesis by (simp add: mult.assoc)
qed

lemma dyadic_quotient:
  assumes "k \<le> q"
  shows "of_int M * pow2 q / pow2 k = of_int (M * 2 ^ nat (q - k))"
proof -
  have "of_int (M * 2 ^ nat (q - k)) * pow2 k / pow2 k = of_int M * pow2 q / pow2 k"
    by (simp only: dyadic_product[OF assms])
  then show ?thesis using pow2_pos[of k] by simp
qed

lemma ulp_exponent_cases:
  fixes q e :: int
  assumes "- 1074 \<le> q" "q < max e (- 1022) - 52"
  shows "max e (- 1022) - 52 = e - 52 \<and> q + 53 \<le> e"
  using assms by (auto simp: max_def split: if_splits)

lemma above_binade:
  assumes "M < 2 ^ 53" "q + 53 \<le> e"
  shows "of_int M * pow2 q < pow2 e"
proof -
  have "(of_int M :: rat) < of_int (2 ^ 53)" using assms(1) by (simp only: of_int_less_iff)
  then have "(of_int M :: rat) < pow2 53" by (simp add: pow2_def)
  then have "of_int M * pow2 q < pow2 53 * pow2 q"
    using pow2_pos[of q] by (simp add: mult_strict_right_mono)
  also have "\<dots> = pow2 (53 + q)" by (simp only: pow2_add)
  also have "\<dots> \<le> pow2 e" using assms(2) by (simp add: pow2_le_iff)
  finally show ?thesis .
qed

lemma round_double_le_pos:
  assumes x: "0 < x" and le: "x \<le> of_int M * pow2 q" and M: "M < 2 ^ 53" and q: "- 1074 \<le> q"
    and fin: "of_int M * pow2 q < pow2 1024"
  shows "js_le (round_double x) (Num (of_int M * pow2 q))"
proof -
  define e where "e = floor_log2 x"
  define k where "k = max e (- 1022) - 52"
  define r where "r = of_int (round_half_even (x / pow2 k)) * pow2 k"
  have eb: "pow2 e \<le> x" using floor_log2_bounds[OF x] by (simp add: e_def)
  have kq: "k \<le> q"
  proof (rule ccontr)
    assume "\<not> k \<le> q"
    then have "q < max e (- 1022) - 52" by (simp add: k_def)
    from ulp_exponent_cases[OF q this] have "q + 53 \<le> e" by simp
    from above_binade[OF M this] eb le show False by simp
  qed
  have "x / pow2 k \<le> of_int M * pow2 q / pow2 k"
    using le pow2_pos[of k] by (simp add: divide_right_mono)
  then have "x / pow2 k \<le> of_int (M * 2 ^ nat (q - k))" by (simp only: dyadic_quotient[OF kq])
  then have "round_half_even (x / pow2 k) \<le> M * 2 ^ nat (q - k)" by (rule round_half_even_le)
  then have "(of_int (round_half_even (x / pow2 k)) :: rat) \<le> of_int (M * 2 ^ nat (q - k))"
    by (simp only: of_int_le_iff)
  then have "r \<le> of_int (M * 2 ^ nat (q - k)) * pow2 k"
    unfolding r_def using pow2_pos[of k] by (simp add: mult_right_mono)
  also have "of_int (M * 2 ^ nat (q - k)) * pow2 k = of_int M * pow2 q"
    by (rule dyadic_product[OF kq])
  finally have rle: "r \<le> of_int M * pow2 q" .
  then have "\<not> pow2 1024 \<le> r" using fin by simp
  then show ?thesis
    using rle by (simp add: round_double_pos[OF x] Let_def e_def[symmetric] k_def[symmetric] r_def[symmetric])
qed

lemma round_double_ge_pos:
  assumes D: "0 < M" and le: "of_int M * pow2 q \<le> x" and M: "M < 2 ^ 53" and q: "- 1074 \<le> q"
  shows "js_le (Num (of_int M * pow2 q)) (round_double x)"
proof -
  have Dpos: "0 < of_int M * pow2 q" using D pow2_pos[of q] by simp
  then have x: "0 < x" using le by simp
  define e where "e = floor_log2 x"
  define k where "k = max e (- 1022) - 52"
  define r where "r = of_int (round_half_even (x / pow2 k)) * pow2 k"
  have eb: "pow2 e \<le> x" using floor_log2_bounds[OF x] by (simp add: e_def)
  have rge: "of_int M * pow2 q \<le> r"
  proof (cases "k \<le> q")
    case True
    have "of_int M * pow2 q / pow2 k \<le> x / pow2 k"
      using le pow2_pos[of k] by (simp add: divide_right_mono)
    then have "of_int (M * 2 ^ nat (q - k)) \<le> x / pow2 k" by (simp only: dyadic_quotient[OF True])
    then have "M * 2 ^ nat (q - k) \<le> round_half_even (x / pow2 k)" by (rule round_half_even_ge)
    then have "(of_int (M * 2 ^ nat (q - k)) :: rat) \<le> of_int (round_half_even (x / pow2 k))"
      by (simp only: of_int_le_iff)
    then have "of_int (M * 2 ^ nat (q - k)) * pow2 k \<le> r"
      unfolding r_def using pow2_pos[of k] by (simp only: mult_right_mono less_imp_le)
    then show ?thesis by (simp only: dyadic_product[OF True])
  next
    case False
    then have "q < max e (- 1022) - 52" by (simp add: k_def)
    from ulp_exponent_cases[OF q this] have k: "k = e - 52" and qe: "q + 53 \<le> e"
      by (simp_all add: k_def)
    have "pow2 e / pow2 k \<le> x / pow2 k" using eb pow2_pos[of k] by (simp add: divide_right_mono)
    moreover have "pow2 e / pow2 k = pow2 52" unfolding k by (simp add: pow2_diff[symmetric])
    moreover have "pow2 52 = of_int (2 ^ 52)" by (simp add: pow2_def)
    ultimately have "of_int (2 ^ 52) \<le> x / pow2 k" by simp
    then have "2 ^ 52 \<le> round_half_even (x / pow2 k)" by (rule round_half_even_ge)
    then have "(of_int (2 ^ 52) :: rat) \<le> of_int (round_half_even (x / pow2 k))"
      by (simp only: of_int_le_iff)
    then have "pow2 52 * pow2 k \<le> r"
      unfolding r_def using pow2_pos[of k] by (simp add: mult_right_mono pow2_def)
    moreover have "pow2 52 * pow2 k = pow2 e" unfolding k by (simp add: pow2_add[symmetric])
    ultimately have "pow2 e \<le> r" by simp
    with above_binade[OF M qe] show ?thesis by simp
  qed
  show ?thesis
    using rge by (simp add: round_double_pos[OF x] Let_def e_def[symmetric] k_def[symmetric] r_def[symmetric])
qed

lemma round_double_minus: "round_double (- x) = js_neg (round_double x)"
  by (simp add: round_double_def Let_def)

lemma js_le_neg: "js_le (js_neg a) (js_neg b) = js_le b a"
  by (cases a; cases b) simp_all

text \<open>
  Rounding does not cross a double: a rational at most (at least) a double
  rounds to a number at most (at least) that double.
\<close>

lemma round_double_ge:
  assumes le: "of_int M * pow2 q \<le> x" and M: "\<bar>M\<bar> < 2 ^ 53" and q: "- 1074 \<le> q"
    and fin: "\<bar>of_int M * pow2 q\<bar> < pow2 1024"
  shows "js_le (Num (of_int M * pow2 q)) (round_double x)"
proof -
  consider "0 < M" | "M \<le> 0" "x = 0" | "M \<le> 0" "0 < x" | "M \<le> 0" "x < 0" by linarith
  then show ?thesis
  proof cases
    case 1
    then show ?thesis using le M q by (intro round_double_ge_pos) simp_all
  next
    case 2
    then show ?thesis using le by (simp add: round_double_def)
  next
    case 3
    have D0: "of_int M * pow2 q \<le> 0" using 3(1) pow2_pos[of q] by (simp add: mult_le_0_iff)
    have "0 \<le> of_int (round_half_even (x / pow2 k)) * pow2 k" for k
      using round_half_even_ge[of 0 "x / pow2 k"] 3(2) pow2_pos[of k] by simp
    then have "of_int M * pow2 q \<le> of_int (round_half_even (x / pow2 k)) * pow2 k" for k
      using D0 order_trans by blast
    then show ?thesis by (simp add: round_double_pos[OF 3(2)] Let_def)
  next
    case 4
    then have nx: "0 < - x" by simp
    have le': "- x \<le> of_int (- M) * pow2 q" using le by simp
    have M': "- M < 2 ^ 53" using M by simp
    have fin': "of_int (- M) * pow2 q < pow2 1024" using fin by simp
    have "js_le (round_double (- x)) (Num (of_int (- M) * pow2 q))"
      using nx le' M' q fin' by (rule round_double_le_pos)
    then have "js_le (js_neg (round_double x)) (js_neg (Num (of_int M * pow2 q)))"
      by (simp add: round_double_minus)
    then show ?thesis by (simp only: js_le_neg)
  qed
qed

lemma round_double_le:
  assumes le: "x \<le> of_int M * pow2 q" and M: "\<bar>M\<bar> < 2 ^ 53" and q: "- 1074 \<le> q"
    and fin: "\<bar>of_int M * pow2 q\<bar> < pow2 1024"
  shows "js_le (round_double x) (Num (of_int M * pow2 q))"
proof -
  have "js_le (Num (of_int (- M) * pow2 q)) (round_double (- x))"
    using le M q fin by (intro round_double_ge) simp_all
  then have "js_le (js_neg (Num (of_int M * pow2 q))) (js_neg (round_double x))"
    by (simp add: round_double_minus)
  then show ?thesis by (simp only: js_le_neg)
qed

lemma small_finite:
  assumes "\<bar>M\<bar> < 2 ^ 53" "q \<le> 0"
  shows "\<bar>of_int M * pow2 q\<bar> < pow2 1024"
proof -
  have "pow2 q \<le> pow2 0" using assms(2) by (simp only: pow2_le_iff)
  then have q1: "pow2 q \<le> 1" by (simp add: pow2_def)
  have "(of_int \<bar>M\<bar> :: rat) < of_int (2 ^ 53)" using assms(1) by (simp only: of_int_less_iff)
  then have M: "\<bar>of_int M :: rat\<bar> < pow2 53" by (simp add: pow2_def)
  have "\<bar>of_int M * pow2 q\<bar> = \<bar>of_int M :: rat\<bar> * pow2 q"
    using pow2_pos[of q] by (simp add: abs_mult)
  also have "\<dots> \<le> \<bar>of_int M :: rat\<bar> * 1" using q1 by (intro mult_left_mono) simp_all
  also have "\<dots> < pow2 53" using M by simp
  also have "pow2 53 \<le> pow2 1024" by (simp only: pow2_le_iff)
  finally show ?thesis .
qed

lemma js_le_trans: "js_le a b \<Longrightarrow> js_le b c \<Longrightarrow> js_le a c"
  by (cases a; cases b; cases c) simp_all

lemma js_le_less: "js_le a (Num d) \<Longrightarrow> d < t \<Longrightarrow> js_lt a (Num t)"
  by (cases a) simp_all

lemma js_le_not_less: "js_le (Num t) a \<Longrightarrow> \<not> js_lt a (Num t)"
  by (cases a) simp_all

text \<open>
  With integer scores and an integer threshold the rounding of the average
  is not visible: the comparisons of the scan are those of the exact mean.
\<close>

lemma window_compare_exact:
  assumes b: "\<forall>q\<in>set qs. \<bar>q\<bar> \<le> 2 ^ 49" and T: "\<bar>T\<bar> \<le> 2 ^ 48"
  shows "window_good qs (Num (of_int T)) i \<longleftrightarrow> of_int T \<le> window_mean qs i"
    and "window_bad qs (Num (of_int T)) i \<longleftrightarrow> window_mean qs i < of_int T"
proof -
  define s where "s = sum_list (window_scores qs i)"
  define x :: rat where "x = of_int s / 10"
  define D :: rat where "D = of_int (16 * T - 1) * pow2 (- 4)"
  have avg: "window_average qs i = round_double x"
    by (simp add: window_average_exact[OF b] window_mean_def x_def s_def)
  have mean: "window_mean qs i = x" by (simp add: window_mean_def x_def s_def)
  have T53: "\<bar>T\<bar> < 2 ^ 53" using T by simp
  have T16: "\<bar>16 * T - 1\<bar> < 2 ^ 53" using T by simp
  have ge: "js_le (Num (of_int T)) (round_double x)" if "of_int T \<le> x"
  proof -
    have "js_le (Num (of_int T * pow2 0)) (round_double x)"
      using that T53 small_finite[OF T53, of 0] by (intro round_double_ge) (simp_all add: pow2_def)
    then show ?thesis by (simp add: pow2_def)
  qed
  have DT: "D < of_int T" by (simp add: D_def pow2_def field_simps)
  have le: "js_le (round_double x) (Num D)" if "x < of_int T"
  proof -
    from that have "(of_int s :: rat) < of_int (10 * T)" by (simp add: x_def field_simps)
    then have "s < 10 * T" by (simp only: of_int_less_iff)
    then have "s \<le> 10 * T - 1" by simp
    then have "(of_int s :: rat) \<le> of_int (10 * T - 1)" by (simp only: of_int_le_iff)
    then have "x \<le> of_int T - 1 / 10" by (simp add: x_def field_simps)
    also have "\<dots> \<le> D" by (simp add: D_def pow2_def field_simps)
    finally have "x \<le> D" .
    then show ?thesis
      unfolding D_def using T16 small_finite[OF T16, of "- 4"] by (intro round_double_le) simp_all
  qed
  show "window_good qs (Num (of_int T)) i \<longleftrightarrow> of_int T \<le> window_mean qs i"
  proof
    assume "of_int T \<le> window_mean qs i"
    then show "window_good qs (Num (of_int T)) i"
      using ge by (simp add: window_good_def js_ge_def avg mean)
  next
    assume g: "window_good qs (Num (of_int T)) i"
    show "of_int T \<le> window_mean qs i"
    proof (rule ccontr)
      assume "\<not> of_int T \<le> window_mean qs i"
      then have "x < of_int T" by (simp add: mean)
      from g have "js_le (Num (of_int T)) (round_double x)"
        by (simp add: window_good_def js_ge_def avg)
      from js_le_trans[OF this le[OF \<open>x < of_int T\<close>]] DT show False by simp
    qed
  qed
  show "window_bad qs (Num (of_int T)) i \<longleftrightarrow> window_mean qs i < of_int T"
  proof
    assume "window_mean qs i < of_int T"
    then have "x < of_int T" by (simp add: mean)
    from js_le_less[OF le[OF this] DT] show "window_bad qs (Num (of_int T)) i"
      by (simp add: window_bad_def avg)
  next
    assume bd: "window_bad qs (Num (of_int T)) i"
    show "window_mean qs i < of_int T"
    proof (rule ccontr)
      assume "\<not> window_mean qs i < of_int T"
      then have "of_int T \<le> x" by (simp add: mean)
      from js_le_not_less[OF ge[OF this]] bd show False by (simp add: window_bad_def avg)
    qed
  qed
qed

text \<open>
  C3 (as amended). A non-empty array of fewer than 11 scores is kept whole,
  \<open>trimStart = 0\<close> and \<open>trimEnd = len - 1\<close>, whatever the thresholds are; for
  the empty array the guard at the head of \<^verbatim>\<open>findTrimPoints\<close> answers
  \<open>trimStart = 0\<close>, \<open>trimEnd = 0\<close>.
\<close>

theorem findTrimPoints_short:
  "(qs = [] \<longrightarrow> findTrimPoints qs u l = \<lparr>trimStart = 0, trimEnd = 0\<rparr>) \<and>
   (qs \<noteq> [] \<and> length qs < 11 \<longrightarrow>
      findTrimPoints qs u l = \<lparr>trimStart = 0, trimEnd = int (length qs) - 1\<rparr>)"
  by (simp add: findTrimPoints_def)

theorem findTrimPoints_short_witness:
  "[7, 8, 9] \<noteq> ([] :: int list) \<and> length [7, 8, 9 :: int] < 11 \<and>
   findTrimPoints [7, 8, 9] (Num 24) (Num 15) = \<lparr>trimStart = 0, trimEnd = 2\<rparr> \<and>
   findTrimPoints [] (Num 24) (Num 15) = \<lparr>trimStart = 0, trimEnd = 0\<rparr>"
  using findTrimPoints_short [of "[7, 8, 9]" "Num 24" "Num 15"]
    findTrimPoints_short [of "[]" "Num 24" "Num 15"]
  by simp

text \<open>
  The claim C3 as the specification states it fails on the empty array: it
  has fewer than 11 elements, and \<open>trimEnd\<close> is \<open>0\<close>, not \<open>len - 1 = -1\<close>.
\<close>

theorem findTrimPoints_empty_counterexample:
  "length ([] :: int list) < 11 \<and>
   findTrimPoints [] (Num 24) (Num 15) \<noteq> \<lparr>trimStart = 0, trimEnd = int (length ([] :: int list)) - 1\<rparr>"
  by (simp add: findTrimPoints_def)

text \<open>
  C4. Let the array have at least 11 scores and let some position of the
  scan range \<open>[5, len - 6]\<close> be good: its centered window average, the mean
  of the five scores before it and the five after it as double arithmetic
  computes it, reaches the upper threshold. Then \<open>trimStart\<close> is the first
  good position of the range. Either the scan meets a bad position (window
  average below the lower threshold) at or after \<open>trimStart\<close>; it stops at
  the first such position \<open>f\<close>, and \<open>trimEnd\<close> is the last good position up
  to \<open>f\<close>. Or no position from \<open>trimStart\<close> to \<open>len - 6\<close> is bad, and
  \<open>trimEnd\<close> is the last good position of the range. For scores of
  magnitude up to \<open>2 ^ 49\<close> the sums are exact and the window average is
  the double nearest to the exact mean of the ten scores; against an integer
  threshold of magnitude up to \<open>2 ^ 48\<close> (the application passes integers)
  a position is then good exactly when the exact mean reaches the
  threshold, and bad exactly when the exact mean is below it.
\<close>

theorem findTrimPoints_scan:
  assumes len: "11 \<le> length qs"
    and ex: "\<exists>i. 5 \<le> i \<and> i \<le> int (length qs) - 6 \<and> window_good qs u i"
  shows "(let r = findTrimPoints qs u l; s = trimStart r; e = trimEnd r;
              n = int (length qs) - 6 in
     5 \<le> s \<and> s \<le> e \<and> e \<le> n \<and> window_good qs u s \<and> window_good qs u e \<and>
     (\<forall>j. 5 \<le> j \<and> j < s \<longrightarrow> \<not> window_good qs u j) \<and>
     ((\<exists>f. s \<le> f \<and> f \<le> n \<and> window_bad qs l f \<and>
            (\<forall>j. s \<le> j \<and> j < f \<longrightarrow> \<not> window_bad qs l j) \<and>
            e \<le> f \<and> (\<forall>j. e < j \<and> j \<le> f \<longrightarrow> \<not> window_good qs u j))
      \<or> ((\<forall>j. s \<le> j \<and> j \<le> n \<longrightarrow> \<not> window_bad qs l j) \<and>
          (\<forall>j. e < j \<and> j \<le> n \<longrightarrow> \<not> window_good qs u j)))) \<and>
   ((\<forall>q\<in>set qs. \<bar>q\<bar> \<le> 2 ^ 49) \<longrightarrow>
      (\<forall>i. window_average qs i = round_double (window_mean qs i)) \<and>
      (\<forall>T i. \<bar>T\<bar> \<le> 2 ^ 48 \<longrightarrow>
         (window_good qs (Num (of_int T)) i \<longleftrightarrow> of_int T \<le> window_mean qs i) \<and>
         (window_bad qs (Num (of_int T)) i \<longleftrightarrow> window_mean qs i < of_int T)))"
proof -
  define st0 where "st0 = \<lparr>s_trimStart = -1, s_lastGoodPosition = -1,
                    s_trimEnd = int (length qs) - 6, s_foundFallOff = False\<rparr>"
  define r where "r = scan_loop qs u l 5 st0"
  have post: "scan_post qs u l r"
    unfolding r_def st0_def using len by (intro scan_loop_post scan_init) simp_all
  have ne: "s_trimStart r \<noteq> -1"
    using post ex by (auto simp: scan_post_def Let_def split: if_splits)
  have res: "findTrimPoints qs u l = \<lparr>trimStart = s_trimStart r,
                 trimEnd = (if \<not> s_foundFallOff r
                            then (if s_lastGoodPosition r \<noteq> -1 then s_lastGoodPosition r
                                  else int (length qs) - 6)
                            else s_trimEnd r)\<rparr>"
  proof -
    from len have "qs \<noteq> []" "\<not> length qs < 11" by auto
    with ne show ?thesis by (simp add: findTrimPoints_def r_def st0_def Let_def)
  qed
  have scan: "let r = findTrimPoints qs u l; s = trimStart r; e = trimEnd r;
              n = int (length qs) - 6 in
     5 \<le> s \<and> s \<le> e \<and> e \<le> n \<and> window_good qs u s \<and> window_good qs u e \<and>
     (\<forall>j. 5 \<le> j \<and> j < s \<longrightarrow> \<not> window_good qs u j) \<and>
     ((\<exists>f. s \<le> f \<and> f \<le> n \<and> window_bad qs l f \<and>
            (\<forall>j. s \<le> j \<and> j < f \<longrightarrow> \<not> window_bad qs l j) \<and>
            e \<le> f \<and> (\<forall>j. e < j \<and> j \<le> f \<longrightarrow> \<not> window_good qs u j))
      \<or> ((\<forall>j. s \<le> j \<and> j \<le> n \<longrightarrow> \<not> window_bad qs l j) \<and>
          (\<forall>j. e < j \<and> j \<le> n \<longrightarrow> \<not> window_good qs u j)))"
  proof (cases "s_foundFallOff r")
    case True
    then show ?thesis using post ne unfolding res
      by (simp add: scan_post_def Let_def)
  next
    case False
    then have "s_lastGoodPosition r \<noteq> -1" using post ne by (auto simp: scan_post_def Let_def)
    then show ?thesis using False post ne unfolding res
      by (simp add: scan_post_def Let_def)
  qed
  have exact: "(\<forall>q\<in>set qs. \<bar>q\<bar> \<le> 2 ^ 49) \<longrightarrow>
      (\<forall>i. window_average qs i = round_double (window_mean qs i)) \<and>
      (\<forall>T i. \<bar>T\<bar> \<le> 2 ^ 48 \<longrightarrow>
         (window_good qs (Num (of_int T)) i \<longleftrightarrow> of_int T \<le> window_mean qs i) \<and>
         (window_bad qs (Num (of_int T)) i \<longleftrightarrow> window_mean qs i < of_int T))"
    using window_average_exact[of qs] window_compare_exact[of qs] by blast
  from scan exact show ?thesis by (rule conjI)
qed

text \<open>
  An instance: a plateau of nine scores of 30 between runs of 10, with the
  thresholds 24 and 21. Position 7 is the first one whose window average
  (24, the mean of 10, 10, 10, 30, 30 and 30, 30, 30, 30, 30) reaches 24,
  position 11 is the last one, and the scan stops at position 13, whose
  window average is 20.
\<close>

theorem findTrimPoints_scan_witness:
  "11 \<le> length [10, 10, 10, 10, 10, 30, 30, 30, 30, 30, 30, 30, 30, 30, 10, 10, 10, 10, 10, 10 :: int] \<and>
   window_good [10, 10, 10, 10, 10, 30, 30, 30, 30, 30, 30, 30, 30, 30, 10, 10, 10, 10, 10, 10]
     (Num 24) 7 \<and>
   window_average [10, 10, 10, 10, 10, 30, 30, 30, 30, 30, 30, 30, 30, 30, 10, 10, 10, 10, 10, 10] 7
     = Num 24 \<and>
   window_mean [10, 10, 10, 10, 10, 30, 30, 30, 30, 30, 30, 30, 30, 30, 10, 10, 10, 10, 10, 10] 7
     = 24 \<and>
   \<bar>24 :: int\<bar> \<le> 2 ^ 48 \<and>
   findTrimPoints [10, 10, 10, 10, 10, 30, 30, 30, 30, 30, 30, 30, 30, 30, 10, 10, 10, 10, 10, 10]
     (Num 24) (Num 21) = \<lparr>trimStart = 7, trimEnd = 11\<rparr> \<and>
   window_bad [10, 10, 10, 10, 10, 30, 30, 30, 30, 30, 30, 30, 30, 30, 10, 10, 10, 10, 10, 10]
     (Num 21) 13"
proof -
  define qs :: "int list"
    where "qs = [10, 10, 10, 10, 10, 30, 30, 30, 30, 30, 30, 30, 30, 30, 10, 10, 10, 10, 10, 10]"
  have len: "length qs = 20" by (simp add: qs_def)
  have h1: "11 \<le> length qs" by (simp add: len)
  have b: "\<forall>q\<in>set qs. \<bar>q\<bar> \<le> 2 ^ 49" by (simp add: qs_def)
  have mean: "window_mean qs 5 = 20" "window_mean qs 6 = 22" "window_mean qs 7 = 24"
    "window_mean qs 8 = 26" "window_mean qs 9 = 26" "window_mean qs 10 = 26"
    "window_mean qs 11 = 24" "window_mean qs 12 = 22" "window_mean qs 13 = 20"
    by (simp_all add: window_mean_def window_scores_def qs_def)
  have rd: "round_double 20 = Num 20" "round_double 22 = Num 22" "round_double 24 = Num 24"
    "round_double 26 = Num 26"
    using round_double_int[of 20] round_double_int[of 22] round_double_int[of 24]
      round_double_int[of 26] by simp_all
  have avg: "window_average qs 5 = Num 20" "window_average qs 6 = Num 22"
    "window_average qs 7 = Num 24" "window_average qs 8 = Num 26" "window_average qs 9 = Num 26"
    "window_average qs 10 = Num 26" "window_average qs 11 = Num 24"
    "window_average qs 12 = Num 22" "window_average qs 13 = Num 20"
    by (simp_all add: window_average_exact[OF b] mean rd)
  have g: "window_good qs (Num 24) 7" by (simp add: window_good_def js_ge_def avg)
  have h2: "\<exists>i. 5 \<le> i \<and> i \<le> int (length qs) - 6 \<and> window_good qs (Num 24) i"
    using g by (intro exI[of _ 7]) (simp add: len)
  have f: "findTrimPoints qs (Num 24) (Num 21) = \<lparr>trimStart = 7, trimEnd = 11\<rparr>"
    by (simp add: findTrimPoints_def len scan_loop_unfold scan_step_def window_good_def
          window_bad_def js_ge_def avg Let_def)
  have bad: "window_bad qs (Num 21) 13" by (simp add: window_bad_def avg)
  from findTrimPoints_scan[OF h1 h2, of "Num 21"] show ?thesis
    using h1 g avg(3) mean(3) b f bad unfolding qs_def[symmetric] by simp
qed


text \<open>
  The rounding is part of the model. The ten scores around position 5 below
  add up to 241. Their exact mean \<open>241 / 10\<close> is less than the double nearest
  to it, which is the value of the literal \<^verbatim>\<open>24.1\<close>; the quotient the code
  computes is that double, so with the threshold \<^verbatim>\<open>24.1\<close> position 5 is good
  and is the trim start.
\<close>

lemma findTrimPoints_rounded_average:
  "window_mean [24, 24, 24, 24, 24, 30, 24, 24, 24, 24, 25, 30] 5 = 241 / 10 \<and>
   round_double (241 / 10) = Num (3391773469363405 / 140737488355328) \<and>
   (241 / 10 :: rat) < 3391773469363405 / 140737488355328 \<and>
   window_good [24, 24, 24, 24, 24, 30, 24, 24, 24, 24, 25, 30]
     (Num (3391773469363405 / 140737488355328)) 5 \<and>
   findTrimPoints [24, 24, 24, 24, 24, 30, 24, 24, 24, 24, 25, 30]
     (Num (3391773469363405 / 140737488355328)) (Num 15) = \<lparr>trimStart = 5, trimEnd = 6\<rparr>"
proof -
  define qs :: "int list" where "qs = [24, 24, 24, 24, 24, 30, 24, 24, 24, 24, 25, 30]"
  have len: "length qs = 12" by (simp add: qs_def)
  have b: "\<forall>q\<in>set qs. \<bar>q\<bar> \<le> 2 ^ 49" by (simp add: qs_def)
  have mean: "window_mean qs 5 = 241 / 10" "window_mean qs 6 = 253 / 10"
    by (simp_all add: window_mean_def window_scores_def qs_def)
  have avg: "window_average qs 5 = Num (3391773469363405 / 140737488355328)"
    "window_average qs 6 = Num (7121316910779597 / 281474976710656)"
    by (simp_all add: window_average_exact[OF b] mean double_24_1 double_25_3)
  have g: "window_good qs (Num (3391773469363405 / 140737488355328)) 5"
    by (simp add: window_good_def js_ge_def avg)
  have f: "findTrimPoints qs (Num (3391773469363405 / 140737488355328)) (Num 15)
             = \<lparr>trimStart = 5, trimEnd = 6\<rparr>"
    by (simp add: findTrimPoints_def len scan_loop_unfold scan_step_def window_good_def
          window_bad_def js_ge_def avg Let_def)
  show ?thesis using mean(1) double_24_1 g f unfolding qs_def[symmetric] by simp
qed

section \<open>Properties of the viewport\<close>

lemma js_times_NaN_right: "js_times x NaN = NaN"
  by (cases x) simp_all

lemma js_divide_NaN_right: "js_divide x NaN = NaN"
  by (cases x) simp_all

lemma js_minus_NaN_left: "js_minus NaN y = NaN"
  by (simp add: js_minus_def)

lemma updateCanvasSize_fields:
  "traces (updateCanvasSize c) = traces c"
  "clientWidth (updateCanvasSize c) = clientWidth c"
  "minXScale (updateCanvasSize c) = minXScale c"
  "maxXScale (updateCanvasSize c) = maxXScale c"
  "xScale (updateCanvasSize c) = xScale c"
  by (simp_all add: updateCanvasSize_def Let_def)


lemma setZoom_fields:
  "traces (setZoom br c s) = traces c"
  "clientWidth (setZoom br c s) = clientWidth c"
  "minXScale (setZoom br c s) = minXScale c"
  "maxXScale (setZoom br c s) = maxXScale c"
  by (simp_all add: setZoom_def Let_def set_scrollLeft_def updateCanvasSize_fields)

lemma setZoom_xScale:
  "js_strict_neq (Math_max (minXScale c) (Math_min (maxXScale c) s)) (xScale c) \<Longrightarrow>
   xScale (setZoom br c s) = Math_max (minXScale c) (Math_min (maxXScale c) s)"
  by (simp add: setZoom_def Let_def set_scrollLeft_def updateCanvasSize_fields)

lemma setZoom_NaN:
  assumes "Math_max (minXScale c) (Math_min (maxXScale c) s) = NaN"
  shows "setZoom br c s =
     (let c1 = updateCanvasSize (c\<lparr>xScale := NaN\<rparr>);
          v = br (canvas_width c1) (clientWidth c) NaN
      in c1\<lparr>scrollLeft := v, scrollX := v\<rparr>)"
  using assms
  by (simp add: setZoom_def Let_def set_scrollLeft_def updateCanvasSize_fields js_strict_neq_def
        js_times_NaN_right js_minus_NaN_left)

lemma setZoom_idem: "setZoom br (setZoom br c s) s = setZoom br c s"
proof (cases "js_strict_neq (Math_max (minXScale c) (Math_min (maxXScale c) s)) (xScale c)")
  case False
  then have "setZoom br c s = c" by (simp add: setZoom_def Let_def)
  then show ?thesis by simp
next
  case True
  define c' where "c' = setZoom br c s"
  have clamp: "Math_max (minXScale c') (Math_min (maxXScale c') s)
             = Math_max (minXScale c) (Math_min (maxXScale c) s)"
    by (simp add: c'_def setZoom_fields)
  have xs: "xScale c' = Math_max (minXScale c) (Math_min (maxXScale c) s)"
    unfolding c'_def using True by (rule setZoom_xScale)
  show ?thesis
  proof (cases "Math_max (minXScale c) (Math_min (maxXScale c) s) = NaN")
    case False
    then have "\<not> js_strict_neq (Math_max (minXScale c') (Math_min (maxXScale c') s)) (xScale c')"
      by (simp add: clamp xs js_strict_neq_def)
    then have "setZoom br c' s = c'" by (simp add: setZoom_def Let_def)
    then show ?thesis by (simp add: c'_def)
  next
    case nan: True
    have e1: "c' = (let c1 = updateCanvasSize (c\<lparr>xScale := NaN\<rparr>);
          v = br (canvas_width c1) (clientWidth c) NaN
      in c1\<lparr>scrollLeft := v, scrollX := v\<rparr>)"
      unfolding c'_def using nan by (rule setZoom_NaN)
    have "setZoom br c' s = (let c1 = updateCanvasSize (c'\<lparr>xScale := NaN\<rparr>);
          v = br (canvas_width c1) (clientWidth c') NaN
      in c1\<lparr>scrollLeft := v, scrollX := v\<rparr>)"
      using nan clamp by (intro setZoom_NaN) simp
    also have "\<dots> = c'"
      by (unfold e1) (simp add: Let_def updateCanvasSize_def split: option.splits)
    finally show ?thesis by (simp add: c'_def)
  qed
qed

text \<open>
  C9. Calling \<^verbatim>\<open>fitToView\<close> a second time changes nothing: the canvas after
  two calls is the canvas after one, its scale and scroll offset included.
  This holds for every browser answer to the \<^verbatim>\<open>scrollLeft\<close> assignment and
  also when the scale computed is \<^verbatim>\<open>NaN\<close> (no samples in a container of
  width 0), where the second call runs the update again with the same result.
\<close>

theorem fitToView_idempotent: "fitToView br (fitToView br c) = fitToView br c"
proof (cases "traces c")
  case None
  then show ?thesis by (simp add: fitToView_def)
next
  case (Some tr)
  show ?thesis
  proof (cases "tr ''G''")
    case None
    with Some show ?thesis by (simp add: fitToView_def)
  next
    case g: (Some g)
    define s where "s = js_divide (clientWidth c) (Num (of_nat (length g)))"
    have 1: "fitToView br c = setZoom br c s"
      using Some g by (simp add: fitToView_def s_def)
    have "fitToView br (setZoom br c s) = setZoom br (setZoom br c s) s"
      using Some g by (simp add: fitToView_def s_def setZoom_fields)
    then show ?thesis by (simp add: 1 setZoom_idem)
  qed
qed

text \<open>
  An instance: four samples in a container 800 pixels wide, from the initial
  scale 2. The fitted scale \<open>800 / 4\<close> is clamped to the maximum 10.
\<close>

theorem fitToView_idempotent_witness:
  "fitToView (\<lambda>w cw v. v)
     (fitToView (\<lambda>w cw v. v)
        ((new_ChromatogramCanvas (Num 800))\<lparr>traces := Some [''G'' \<mapsto> [1, 2, 3, 4]]\<rparr>))
   = fitToView (\<lambda>w cw v. v)
        ((new_ChromatogramCanvas (Num 800))\<lparr>traces := Some [''G'' \<mapsto> [1, 2, 3, 4]]\<rparr>) \<and>
   xScale (fitToView (\<lambda>w cw v. v)
        ((new_ChromatogramCanvas (Num 800))\<lparr>traces := Some [''G'' \<mapsto> [1, 2, 3, 4]]\<rparr>))
   = Num 10"
proof -
  have "xScale (fitToView (\<lambda>w cw v. v)
        ((new_ChromatogramCanvas (Num 800))\<lparr>traces := Some [''G'' \<mapsto> [1, 2, 3, 4]]\<rparr>))
      = Num 10"
    by (simp add: fitToView_def setZoom_def new_ChromatogramCanvas_def updateCanvasSize_def
          set_scrollLeft_def Math_max_def Math_min_def js_strict_neq_def Let_def)
  then show ?thesis
    using fitToView_idempotent [of "\<lambda>w cw v. v"
        "(new_ChromatogramCanvas (Num 800))\<lparr>traces := Some [''G'' \<mapsto> [1, 2, 3, 4]]\<rparr>"]
    by simp
qed

section \<open>Properties of the search\<close>

lemma indexOf_from_miss:
  "(\<And>i. k \<le> i \<Longrightarrow> \<not> occurs_at s p i) \<Longrightarrow> indexOf_from s p k = -1"
proof (induction s p k rule: indexOf_from.induct)
  case (1 s p k)
  show ?case
  proof (cases "length s < k + length p")
    case True
    then show ?thesis by (subst indexOf_from.simps) simp
  next
    case False
    with "1.prems"[of k] have ne: "take (length p) (drop k s) \<noteq> p"
      by (simp add: occurs_at_def)
    have "indexOf_from s p (k + 1) = -1"
      using False ne "1.prems" by (intro "1.IH") auto
    with False ne show ?thesis by (subst indexOf_from.simps) simp
  qed
qed

lemma indexOf_from_hit:
  "k \<le> i \<Longrightarrow> occurs_at s p i \<Longrightarrow> (\<And>j. k \<le> j \<Longrightarrow> j < i \<Longrightarrow> \<not> occurs_at s p j) \<Longrightarrow>
   indexOf_from s p k = int i"
proof (induction s p k rule: indexOf_from.induct)
  case (1 s p k)
  from "1.prems"(1,2) have le: "\<not> length s < k + length p" by (simp add: occurs_at_def)
  show ?case
  proof (cases "k = i")
    case True
    with "1.prems"(2) le show ?thesis
      by (subst indexOf_from.simps) (simp add: occurs_at_def)
  next
    case False
    with "1.prems"(1) have lt: "k < i" by simp
    with "1.prems"(3)[of k] le have ne: "take (length p) (drop k s) \<noteq> p"
      by (simp add: occurs_at_def)
    have "indexOf_from s p (k + 1) = int i"
      using le ne lt "1.prems" by (intro "1.IH") auto
    with le ne show ?thesis by (subst indexOf_from.simps) simp
  qed
qed

lemma occurs_at_bound: "p \<noteq> [] \<Longrightarrow> occurs_at s p i \<Longrightarrow> i < length s"
  by (cases p) (auto simp: occurs_at_def)

lemma indexOf_miss:
  assumes "p \<noteq> []" and "\<And>i. k \<le> i \<Longrightarrow> \<not> occurs_at s p i"
  shows "indexOf s p (int k) = -1"
proof -
  have "\<not> occurs_at s p i" if "min k (length s) \<le> i" for i
  proof (cases "k \<le> i")
    case True
    then show ?thesis by (rule assms(2))
  next
    case False
    with that have "length s \<le> i" by simp
    with occurs_at_bound[OF assms(1)] show ?thesis by force
  qed
  then have "indexOf_from s p (min k (length s)) = -1" by (rule indexOf_from_miss)
  moreover have "nat (min (max (int k) 0) (int (length s))) = min k (length s)" by simp
  ultimately show ?thesis by (simp only: indexOf_def)
qed

lemma indexOf_hit:
  assumes "p \<noteq> []" and "k \<le> i" and "occurs_at s p i"
    and "\<And>j. k \<le> j \<Longrightarrow> j < i \<Longrightarrow> \<not> occurs_at s p j"
  shows "indexOf s p (int k) = int i"
proof -
  from occurs_at_bound[OF assms(1,3)] assms(2) have "k \<le> length s" by simp
  then have "nat (min (max (int k) 0) (int (length s))) = k" by simp
  moreover have "indexOf_from s p k = int i" using assms(2-4) by (rule indexOf_from_hit)
  ultimately show ?thesis by (simp only: indexOf_def)
qed

lemma filter_upt_none:
  "(\<And>i. k \<le> i \<Longrightarrow> \<not> P i) \<Longrightarrow> filter P [k..<n] = []"
  by (auto simp: filter_empty_conv)

lemma filter_upt_first:
  assumes "k \<le> i" "i < n" "P i" "\<And>j. k \<le> j \<Longrightarrow> j < i \<Longrightarrow> \<not> P j"
  shows "filter P [k..<n] = i # filter P [i + 1..<n]"
proof -
  have "[k..<n] = [k..<i] @ [i..<n]"
    using upt_add_eq_append[of k i "n - i"] assms(1,2) by simp
  moreover have "[i..<n] = i # [i + 1..<n]"
    using assms(2) by (simp add: upt_conv_Cons)
  moreover have "filter P [k..<i] = []" using assms(4) by (auto simp: filter_empty_conv)
  ultimately show ?thesis using assms(3) by simp
qed

lemma search_loop_miss:
  "indexOf s p (int k) = -1 \<Longrightarrow> search_loop p s n (int k) acc = Some acc"
  by (subst search_loop.simps) simp

lemma search_loop_hit:
  "indexOf s p (int k) = int i \<Longrightarrow>
   search_loop p s n (int k) acc =
     search_loop p s n (int (i + 1)) (acc @ [(int i, int i + int n - 1)])"
  by (subst search_loop.simps) (simp add: add.commute)

lemma search_loop_spec:
  assumes ne: "p \<noteq> []"
  shows "search_loop p s n (int k) acc =
         Some (acc @ map (\<lambda>i. (int i, int i + int n - 1)) (filter (occurs_at s p) [k..<length s]))"
proof (induction "length s - k" arbitrary: k acc rule: less_induct)
  case less
  show ?case
  proof (cases "\<exists>i. k \<le> i \<and> occurs_at s p i")
    case False
    then have "\<And>i. k \<le> i \<Longrightarrow> \<not> occurs_at s p i" by blast
    then have miss: "indexOf s p (int k) = -1" and "filter (occurs_at s p) [k..<length s] = []"
      using ne by (simp_all add: indexOf_miss filter_upt_none)
    then show ?thesis by (simp add: search_loop_miss)
  next
    case True
    then obtain i0 where i0: "k \<le> i0 \<and> occurs_at s p i0" by blast
    from ex_has_least_nat[of "\<lambda>i. k \<le> i \<and> occurs_at s p i" i0 "\<lambda>x. x", OF i0]
    obtain i where ki: "k \<le> i" and occ: "occurs_at s p i"
      and min: "\<And>j. k \<le> j \<and> occurs_at s p j \<Longrightarrow> i \<le> j" by blast
    have least: "\<not> occurs_at s p j" if "k \<le> j" "j < i" for j
      using min[of j] that by auto
    have hit: "indexOf s p (int k) = int i" using ne ki occ least by (rule indexOf_hit)
    have ilen: "i < length s" using occurs_at_bound[OF ne occ] .
    have "length s - (i + 1) < length s - k" using ki ilen by simp
    then have rec: "search_loop p s n (int (i + 1)) (acc @ [(int i, int i + int n - 1)]) =
          Some ((acc @ [(int i, int i + int n - 1)]) @
             map (\<lambda>i. (int i, int i + int n - 1)) (filter (occurs_at s p) [i + 1..<length s]))"
      by (rule less)
    have fl: "filter (occurs_at s p) [k..<length s] = i # filter (occurs_at s p) [i + 1..<length s]"
      using ki ilen occ least by (rule filter_upt_first)
    show ?thesis
      unfolding search_loop_hit[OF hit] rec fl by simp
  qed
qed

lemma toUpperCase_ascii_eq_iff:
  "toUpperCase_ascii a = toUpperCase_ascii b \<longleftrightarrow> ci_char a b"
  by (auto simp: toUpperCase_ascii_def ci_char_def)

lemma map_eq_list_all2:
  "map f xs = map f ys \<longleftrightarrow> list_all2 (\<lambda>x y. f x = f y) xs ys"
proof (induction xs arbitrary: ys)
  case Nil
  then show ?case by simp
next
  case (Cons x xs)
  then show ?case by (cases ys) simp_all
qed

lemma ci_equal_upper:
  "ci_equal xs ys \<longleftrightarrow> map toUpperCase_ascii xs = map toUpperCase_ascii ys"
  by (simp add: ci_equal_def map_eq_list_all2 toUpperCase_ascii_eq_iff)

lemma occurs_at_upper:
  assumes "P \<noteq> []"
  shows "occurs_at (map toUpperCase_ascii S) (map toUpperCase_ascii P) i
           \<longleftrightarrow> ci_equal (take (length P) (drop i S)) P"
proof
  assume "occurs_at (map toUpperCase_ascii S) (map toUpperCase_ascii P) i"
  then show "ci_equal (take (length P) (drop i S)) P"
    by (simp add: occurs_at_def ci_equal_upper take_map drop_map)
next
  assume a: "ci_equal (take (length P) (drop i S)) P"
  then have "length (take (length P) (drop i S)) = length P"
    by (simp only: ci_equal_def list_all2_lengthD)
  then have "min (length S - i) (length P) = length P" by simp
  moreover from assms have "0 < length P" by simp
  ultimately have "i + length P \<le> length S" by arith
  with a show "occurs_at (map toUpperCase_ascii S) (map toUpperCase_ascii P) i"
    by (simp add: occurs_at_def ci_equal_upper take_map drop_map)
qed

lemma search_loop_matches:
  assumes "P \<noteq> []" "ascii P" "ascii S"
  shows "search_loop (toUpperCase uc P) (toUpperCase uc S) (length P) 0 [] =
         Some (map (match_at P) (match_starts S P))"
proof -
  have up: "toUpperCase uc P = map toUpperCase_ascii P" "toUpperCase uc S = map toUpperCase_ascii S"
    using assms(2,3) by (simp_all add: toUpperCase_def)
  have "map toUpperCase_ascii P \<noteq> []" using assms(1) by simp
  from search_loop_spec[OF this, of "map toUpperCase_ascii S" "length P" 0 "[]"]
  have "search_loop (map toUpperCase_ascii P) (map toUpperCase_ascii S) (length P) 0 [] =
        Some (map (match_at P)
          (filter (occurs_at (map toUpperCase_ascii S) (map toUpperCase_ascii P)) [0..<length S]))"
    by (simp add: match_at_def)
  moreover have "filter (occurs_at (map toUpperCase_ascii S) (map toUpperCase_ascii P)) [0..<length S]
        = match_starts S P"
    unfolding match_starts_def by (rule filter_cong) (simp_all add: occurs_at_upper[OF assms(1)])
  ultimately show ?thesis by (simp add: up)
qed

lemma scrollToBase_searchMatches:
  "searchMatches (scrollToBase br c b) = searchMatches c"
  by (simp add: scrollToBase_def set_scrollLeft_def Let_def)

lemma code_units_simps [simp]:
  "code_units [] = []" "length (code_units s) = length s" "code_units s = [] \<longleftrightarrow> s = []"
  by (simp_all add: code_units_def)

text \<open>
  C5 (as amended). For every non-empty ASCII pattern \<open>P\<close> and every ASCII
  sequence \<open>S\<close>, \<^verbatim>\<open>search\<close> returns: the loop ends. The matches it stores
  are, in increasing order of start position, exactly the start positions
  \<open>i\<close> at which \<open>S[i : i + len P]\<close> equals \<open>P\<close> up to case, overlapping ones
  included, each match running from \<open>i\<close> to \<open>i + len P - 1\<close>; the number
  returned is their count. For the empty pattern, whatever the sequence is,
  \<^verbatim>\<open>search\<close> returns 0 and leaves no match and no current match.
\<close>

theorem search_matches:
  "(P \<noteq> [] \<and> ascii P \<and> ascii (code_units (sequence c)) \<longrightarrow>
      (\<exists>c'. search uc br c P = Some (int (length (match_starts (code_units (sequence c)) P)), c') \<and>
            searchMatches c' = map (match_at P) (match_starts (code_units (sequence c)) P) \<and>
            sorted_wrt (<) (match_starts (code_units (sequence c)) P))) \<and>
   search uc br c [] = Some (0, c\<lparr>searchMatches := [], currentMatchIndex := -1\<rparr>)"
proof (intro conjI impI)
  assume a: "P \<noteq> [] \<and> ascii P \<and> ascii (code_units (sequence c))"
  have srt: "sorted_wrt (<) (match_starts (code_units (sequence c)) P)"
    unfolding match_starts_def by (intro sorted_wrt_filter) simp
  show "\<exists>c'. search uc br c P = Some (int (length (match_starts (code_units (sequence c)) P)), c') \<and>
            searchMatches c' = map (match_at P) (match_starts (code_units (sequence c)) P) \<and>
            sorted_wrt (<) (match_starts (code_units (sequence c)) P)"
  proof (cases "sequence c = []")
    case True
    then show ?thesis using a by (simp add: search_def match_starts_def)
  next
    case False
    then show ?thesis using a srt
      by (simp add: search_def search_loop_matches Let_def scrollToBase_searchMatches)
  qed
next
  show "search uc br c [] = Some (0, c\<lparr>searchMatches := [], currentMatchIndex := -1\<rparr>)"
    by (simp add: search_def)
qed

text \<open>
  An instance: the pattern \<open>aa\<close> (code units 97, 97) occurs in \<open>CAAAG\<close> at
  the positions 1 and 2, which overlap.
\<close>

theorem search_matches_witness:
  "[97, 97] \<noteq> ([] :: nat list) \<and> ascii [97, 97] \<and>
   ascii (code_units (sequence ((new_ChromatogramCanvas (Num 800))\<lparr>sequence := ''CAAAG''\<rparr>))) \<and>
   map_option fst (search plain_unicode plain_browser
       ((new_ChromatogramCanvas (Num 800))\<lparr>sequence := ''CAAAG''\<rparr>) [97, 97]) = Some 2 \<and>
   match_starts (code_units ''CAAAG'') [97, 97] = [1, 2] \<and>
   map (match_at [97, 97]) (match_starts (code_units ''CAAAG'') [97, 97]) = [(1, 2), (2, 3)]"
proof -
  have ne: "[97, 97] \<noteq> ([] :: nat list)" by simp
  have ap: "ascii [97, 97]" by (simp add: ascii_def)
  have cu: "code_units ''CAAAG'' = [67, 65, 65, 65, 71]" by (simp add: code_units_def)
  have as: "ascii (code_units (sequence ((new_ChromatogramCanvas (Num 800))\<lparr>sequence := ''CAAAG''\<rparr>)))"
    by (simp add: cu ascii_def)
  have ms: "match_starts (code_units ''CAAAG'') [97, 97] = [1, 2]"
    unfolding cu by (simp add: match_starts_def ci_equal_def ci_char_def upt_rec)
  from search_matches [of "[97, 97]" "(new_ChromatogramCanvas (Num 800))\<lparr>sequence := ''CAAAG''\<rparr>"
      plain_unicode plain_browser]
  show ?thesis using ne ap as ms by (auto simp: match_at_def)
qed

text \<open>
  The claim C5 as the specification states it, for every pattern, fails on
  the empty pattern: every slice \<open>S[i : i + 0]\<close> is empty and so equals it, at
  each of the four positions of \<open>ACGT\<close>, yet the guard at the head of
  \<^verbatim>\<open>search\<close> returns 0 and stores no match.
\<close>

theorem search_empty_pattern_counterexample:
  "map_option fst (search plain_unicode plain_browser
       ((new_ChromatogramCanvas (Num 800))\<lparr>sequence := ''ACGT''\<rparr>) []) = Some 0 \<and>
   length (match_starts (code_units ''ACGT'') []) = 4"
  by (simp add: search_def match_starts_def ci_equal_def)

text \<open>
  Outside ASCII the upper-case forms need not have the length of the
  strings they come from, and the matches are no longer the slices that
  equal the pattern up to case: with an engine that maps the sharp s to
  \<open>SS\<close>, as the Unicode conversion does, the pattern of the single code unit
  223 is found in the sequence \<open>SS\<close> at position 0, and the match stored
  runs from 0 to 0.
\<close>

lemma search_sharp_s:
  assumes "uc [223] = [83, 83]"
  shows "\<exists>c'. search uc br ((new_ChromatogramCanvas w)\<lparr>sequence := ''SS''\<rparr>) [223] = Some (1, c') \<and>
               searchMatches c' = [(0, 0)]"
proof -
  have cu: "code_units ''SS'' = [83, 83]" by (simp add: code_units_def)
  have up: "toUpperCase uc [223] = [83, 83]" "toUpperCase uc [83, 83] = [83, 83]"
    using assms by (simp_all add: toUpperCase_def ascii_def toUpperCase_ascii_def)
  have "search_loop [83, 83] [83, 83] 1 (int 0) [] =
      Some ([] @ map (\<lambda>i. (int i, int i + int 1 - 1))
                  (filter (occurs_at [83, 83] [83, 83 :: nat]) [0..<length [83, 83 :: nat]]))"
    by (rule search_loop_spec) simp
  then have "search_loop [83, 83] [83, 83] 1 0 [] = Some [(0, 0)]"
    by (simp add: occurs_at_def upt_rec)
  then show ?thesis
    by (simp add: search_def cu up Let_def scrollToBase_searchMatches)
qed

section \<open>Properties of the edit history\<close>



















section \<open>Properties of the chromatogram model\<close>

lemma js_slice_take_drop:
  "0 \<le> lo \<Longrightarrow> lo \<le> hi + 1 \<Longrightarrow>
   js_slice xs (Some lo) (Some (hi + 1)) = take (nat (hi + 1 - lo)) (drop (nat lo) xs)"
  by (auto simp: js_slice_def slice_index_def Let_def min_def nat_diff_distrib' split: if_splits)

lemma js_substring_take_drop:
  "0 \<le> lo \<Longrightarrow> lo \<le> hi + 1 \<Longrightarrow>
   js_substring s lo (hi + 1) = take (nat (hi + 1 - lo)) (drop (nat lo) s)"
  by (auto simp: js_substring_def Let_def min_def max_def nat_diff_distrib' split: if_splits)

lemma applyTrim_rejects:
  "sequence c = [] \<or> s < 0 \<or> e \<ge> int (length (sequence c)) \<Longrightarrow>
   applyTrim br c s e = (Failure ''Invalid trim range'', c)"
  by (simp add: applyTrim_def)

lemma applyTrim_no_traces:
  "\<not> (sequence c = [] \<or> s < 0 \<or> e \<ge> int (length (sequence c))) \<Longrightarrow> traces c = None \<Longrightarrow>
   applyTrim br c s e = (TypeError, c)"
  by (simp add: applyTrim_def Let_def)

lemma applyTrim_fields:
  fixes br :: browser and c :: canvas and s e :: int
  assumes g: "\<not> (sequence c = [] \<or> s < 0 \<or> e \<ge> int (length (sequence c)))"
    and tr: "traces c = Some tr"
  defines "lo \<equiv> (if s > e then e else s)" and "hi \<equiv> (if s > e then s else e)"
  defines "c' \<equiv> snd (applyTrim br c s e)"
  shows "sequence c' = js_substring (sequence c) lo (hi + 1)"
    and "qualityScores c' = (if length (qualityScores c) > 0
            then js_slice (qualityScores c) (Some lo) (Some (hi + 1)) else qualityScores c)"
    and "peakLocations c' =
           map (\<lambda>pos. jsint_minus pos
                  (jsint_max (Some 0) (jsint_minus (js_peak (peakLocations c) lo) (Some 10))))
               (js_slice (peakLocations c) (Some lo) (Some (hi + 1)))"
    and "selection c' = (-1, -1)" and "searchMatches c' = []" and "currentMatchIndex c' = -1"
    and "modifications c' = {}"
    and "fst (applyTrim br c s e) =
           Success (int (length (sequence c))) (int (length (sequence c')))
             (int (length (sequence c)) - int (length (sequence c'))) lo hi"
  using g tr unfolding c'_def lo_def hi_def
  by (simp_all add: applyTrim_def Let_def set_scrollLeft_def updateCanvasSize_def)


lemma sorted_wrt_take_drop:
  "sorted_wrt R xs \<Longrightarrow> sorted_wrt R (take k (drop n xs))"
  by (simp add: sorted_wrt_drop sorted_wrt_take)

lemma jsint_le_shift:
  "jsint_le x y \<Longrightarrow> jsint_le (jsint_minus x (Some t)) (jsint_minus y (Some t))"
  by (auto simp: jsint_le_def jsint_minus_def split: option.splits)

lemma sorted_shift:
  assumes "sorted_wrt jsint_le xs"
  shows "sorted_wrt jsint_le
           (map (\<lambda>pos. jsint_minus pos (jsint_max (Some 0) (jsint_minus (hd xs) (Some 10)))) xs)"
proof (cases xs)
  case Nil
  then show ?thesis by simp
next
  case (Cons h rest)
  show ?thesis
  proof (cases rest)
    case Nil
    with Cons show ?thesis by simp
  next
    case (Cons y rest')
    with \<open>xs = h # rest\<close> assms have "jsint_le h y" by simp
    then obtain a where "h = Some a" by (auto simp: jsint_le_def split: option.splits)
    then obtain t where t: "jsint_max (Some 0) (jsint_minus (hd xs) (Some 10)) = Some t"
      using \<open>xs = h # rest\<close> by (simp add: jsint_max_def jsint_minus_def)
    show ?thesis
      unfolding t sorted_wrt_map
      by (rule sorted_wrt_mono_rel[OF _ assms]) (rule jsint_le_shift)
  qed
qed

lemma trim_keeps_invariant:
  assumes inv: "model_invariant c"
    and rng: "0 \<le> s" "s < int (length (sequence c))" "0 \<le> e" "e < int (length (sequence c))"
  shows "model_invariant (snd (applyTrim br c s e))"
proof (cases "traces c")
  case None
  with rng have "applyTrim br c s e = (TypeError, c)"
    by (intro applyTrim_no_traces) auto
  with inv show ?thesis by simp
next
  case (Some tr)
  define lo hi where "lo = (if s > e then e else s)" and "hi = (if s > e then s else e)"
  define k where "k = nat (hi + 1 - lo)"
  define n where "n = length (sequence c)"
  have g: "\<not> (sequence c = [] \<or> s < 0 \<or> e \<ge> int (length (sequence c)))" using rng by auto
  note f = applyTrim_fields[OF g Some, of br, folded lo_def hi_def]
  have lh: "0 \<le> lo" "lo \<le> hi" "hi < int n" using rng by (auto simp: lo_def hi_def n_def)
  then have lo1: "lo \<le> hi + 1" by simp
  have ln: "nat lo + k \<le> n" using lh by (simp add: k_def)
  from inv have lq: "length (qualityScores c) = n" and lp: "length (peakLocations c) = n"
    and srt: "sorted_wrt jsint_le (peakLocations c)"
    by (simp_all add: model_invariant_def n_def)
  have n0: "0 < n" using lh by simp
  have 1: "length (sequence (snd (applyTrim br c s e))) = k"
    using ln by (simp add: f js_substring_take_drop[OF lh(1) lo1] k_def[symmetric] n_def[symmetric])
  have 2: "length (qualityScores (snd (applyTrim br c s e))) = k"
    using ln n0 by (simp add: f lq js_slice_take_drop[OF lh(1) lo1] k_def[symmetric])
  have pk: "js_peak (peakLocations c) lo = hd (take k (drop (nat lo) (peakLocations c)))"
  proof -
    have "0 < k" using lh by (simp add: k_def)
    moreover have "nat lo < length (peakLocations c)" using lh lp by simp
    ultimately show ?thesis using lh
      by (simp add: js_peak_def js_nth_def lp hd_drop_conv_nth)
  qed
  have 3: "peakLocations (snd (applyTrim br c s e)) =
      map (\<lambda>pos. jsint_minus pos (jsint_max (Some 0)
             (jsint_minus (hd (take k (drop (nat lo) (peakLocations c)))) (Some 10))))
          (take k (drop (nat lo) (peakLocations c)))"
    by (simp add: f js_slice_take_drop[OF lh(1) lo1] k_def[symmetric] pk)
  have 4: "length (peakLocations (snd (applyTrim br c s e))) = k"
    unfolding 3 using ln by (simp add: lp)
  have 5: "sorted_wrt jsint_le (peakLocations (snd (applyTrim br c s e)))"
    unfolding 3 by (intro sorted_shift sorted_wrt_take_drop srt)
  show ?thesis using 1 2 4 5 by (simp add: model_invariant_def)
qed

lemma split_set_join_length:
  "0 \<le> i \<Longrightarrow> i < int (length s) \<Longrightarrow> length b = 1 \<Longrightarrow> length (split_set_join s i b) = length s"
  by (simp add: split_set_join_def)

lemma markModified_fields:
  "qualityScores (markModified c i) = qualityScores c"
  "peakLocations (markModified c i) = peakLocations c"
  "sequence (markModified c i) = sequence c"
  "qualityScores (unmarkModified c i) = qualityScores c"
  "peakLocations (unmarkModified c i) = peakLocations c"
  "sequence (unmarkModified c i) = sequence c"
  by (simp_all add: markModified_def unmarkModified_def)

lemma setBase_canvas_fields:
  "sequence (chromatogram (setBase a cmd b)) =
     split_set_join (fileData_sequence a) (index cmd) (if b = [] then ''N'' else b)"
  "fileData_sequence (setBase a cmd b) =
     split_set_join (fileData_sequence a) (index cmd) (if b = [] then ''N'' else b)"
  "qualityScores (chromatogram (setBase a cmd b)) = qualityScores (chromatogram a)"
  "peakLocations (chromatogram (setBase a cmd b)) = peakLocations (chromatogram a)"
  by (simp_all add: setBase_def Let_def markModified_fields)

lemma setBase_keeps_invariant:
  assumes inv: "model_invariant (chromatogram a)" and sync: "in_sync a"
    and rng: "0 \<le> index cmd" "index cmd < int (length (fileData_sequence a))"
    and b: "length b \<le> 1"
  shows "model_invariant (chromatogram (setBase a cmd b)) \<and> in_sync (setBase a cmd b)"
proof -
  have "length (if b = [] then ''N'' else b) = 1" using b by (cases b) simp_all
  with rng have "length (split_set_join (fileData_sequence a) (index cmd) (if b = [] then ''N'' else b))
        = length (fileData_sequence a)"
    by (intro split_set_join_length)
  then have "length (sequence (chromatogram (setBase a cmd b))) = length (sequence (chromatogram a))"
    using sync by (simp only: setBase_canvas_fields in_sync_def)
  with inv show ?thesis
    by (simp only: model_invariant_def in_sync_def setBase_canvas_fields)
qed

lemma new_canvas_invariant: "model_invariant (new_ChromatogramCanvas w)"
  by (simp add: model_invariant_def new_ChromatogramCanvas_def updateCanvasSize_def Let_def)

lemma loadData_fields:
  "sequence (loadData br c d) = (case d_sequence d of None \<Rightarrow> [] | Some s \<Rightarrow> s)"
  "qualityScores (loadData br c d) = (case d_qualityScores d of None \<Rightarrow> [] | Some qs \<Rightarrow> qs)"
  "peakLocations (loadData br c d) = (case d_peakLocations d of None \<Rightarrow> [] | Some ps \<Rightarrow> ps)"
  "traces (loadData br c d) = d_traces d"
  by (simp_all add: loadData_def Let_def clearSearch_def set_scrollLeft_def updateCanvasSize_def)

lemma canvas_five_fields:
  "sequence canvas_five = ''ACGTA''"
  "qualityScores canvas_five = [20, 30, 40, 30, 20]"
  "peakLocations canvas_five = [Some 10, Some 20, Some 30, Some 40, Some 50]"
  "traces canvas_five \<noteq> None"
  by (simp_all add: canvas_five_def loadData_fields five_bases_def)

lemma canvas_five_invariant: "model_invariant canvas_five"
  by (simp add: model_invariant_def canvas_five_fields jsint_le_def)

text \<open>
  C1 (as amended). The state the constructor leaves satisfies the invariant.
  In every state that satisfies it, it holds again after \<^verbatim>\<open>applyTrim\<close> with
  both indices inside \<open>[0, len)\<close>, whatever the call returns. In every state
  that satisfies it and whose canvas shows the sequence of the file data
  (\<^verbatim>\<open>_setBase\<close> edits \<^verbatim>\<open>fileData.sequence\<close> and copies it to the canvas), it
  holds again, and the canvas shows the sequence of the file data again,
  after a base edit at an index inside \<open>[0, len)\<close> that stores one character
  (or the ambiguity code, for the delete value).
\<close>

theorem invariant_preserved:
  assumes inv: "model_invariant (chromatogram a)"
  shows "(in_sync a \<and> 0 \<le> index cmd \<and> index cmd < int (length (sequence (chromatogram a))) \<and>
          length b \<le> 1
            \<longrightarrow> model_invariant (chromatogram (setBase a cmd b)) \<and> in_sync (setBase a cmd b)) \<and>
         (0 \<le> s \<and> s < int (length (sequence (chromatogram a))) \<and>
          0 \<le> e \<and> e < int (length (sequence (chromatogram a)))
            \<longrightarrow> model_invariant (snd (applyTrim br (chromatogram a) s e))) \<and>
         model_invariant (new_ChromatogramCanvas w)"
proof (intro conjI impI)
  assume h: "in_sync a \<and> 0 \<le> index cmd \<and> index cmd < int (length (sequence (chromatogram a))) \<and>
          length b \<le> 1"
  then have eq: "sequence (chromatogram a) = fileData_sequence a" by (simp add: in_sync_def)
  from h have "index cmd < int (length (sequence (chromatogram a)))" by simp
  then have "index cmd < int (length (fileData_sequence a))" unfolding eq .
  with h show "model_invariant (chromatogram (setBase a cmd b))" "in_sync (setBase a cmd b)"
    using setBase_keeps_invariant[OF inv, of cmd b] by simp_all
next
  assume "0 \<le> s \<and> s < int (length (sequence (chromatogram a))) \<and>
          0 \<le> e \<and> e < int (length (sequence (chromatogram a)))"
  then show "model_invariant (snd (applyTrim br (chromatogram a) s e))"
    using trim_keeps_invariant[OF inv, of s e br] by simp
next
  show "model_invariant (new_ChromatogramCanvas w)" by (rule new_canvas_invariant)
qed

text \<open>An instance: the five-base canvas, an edit of base 2 and the trim to \<open>[1, 3]\<close>.\<close>

theorem invariant_preserved_witness:
  "model_invariant canvas_five \<and>
   in_sync \<lparr>fileData_sequence = ''ACGTA'', chromatogram = canvas_five, undoStack = [],
            redoStack = [], maxSize = 100\<rparr> \<and>
   model_invariant (chromatogram (setBase
      \<lparr>fileData_sequence = ''ACGTA'', chromatogram = canvas_five, undoStack = [], redoStack = [],
       maxSize = 100\<rparr> \<lparr>index = 2, oldBase = ''G'', newBase = ''T''\<rparr> ''T'')) \<and>
   in_sync (setBase
      \<lparr>fileData_sequence = ''ACGTA'', chromatogram = canvas_five, undoStack = [], redoStack = [],
       maxSize = 100\<rparr> \<lparr>index = 2, oldBase = ''G'', newBase = ''T''\<rparr> ''T'') \<and>
   model_invariant (snd (applyTrim plain_browser canvas_five 1 3))"
proof -
  let ?a = "\<lparr>fileData_sequence = ''ACGTA'', chromatogram = canvas_five, undoStack = [],
             redoStack = [], maxSize = 100\<rparr>"
  have inv: "model_invariant (chromatogram ?a)" by (simp add: canvas_five_invariant)
  have sync: "in_sync ?a" by (simp add: in_sync_def canvas_five_fields)
  from invariant_preserved [OF inv, of "\<lparr>index = 2, oldBase = ''G'', newBase = ''T''\<rparr>" "''T''"
      1 3 plain_browser]
  show ?thesis using inv sync by (simp add: canvas_five_fields)
qed

text \<open>
  The claim C1 as the specification states it, for every reachable state,
  fails after a load: \<^verbatim>\<open>loadData\<close> stores the arrays it is given and puts
  an empty array where one is absent, so a file with five bases and no
  quality tag leaves five bases and no scores.
\<close>

theorem invariant_load_counterexample:
  "\<not> model_invariant
       (loadData plain_browser (new_ChromatogramCanvas (Num 800)) five_bases_no_quality)"
  by (simp add: model_invariant_def loadData_fields five_bases_no_quality_def five_bases_def)

text \<open>
  C2 (as amended). \<^verbatim>\<open>applyTrim(start, end)\<close> returns the failure
  \<open>Invalid trim range\<close> and leaves the canvas as it was when the sequence is
  empty, \<open>start < 0\<close> or \<open>end \<ge> len\<close>. With both indices inside \<open>[0, len)\<close>
  it does not fail on \<open>start > end\<close>: the pair is put in order, and the call
  succeeds as a whole, the sequence, the scores and the peaks all being cut
  to \<open>[min, max]\<close>, the peaks moved to the new origin of the traces, and the
  selection, the matches and the modification marks cleared. When no trace
  object is loaded the call throws instead, before it has changed anything.
\<close>

theorem applyTrim_outcome:
  fixes br :: browser and c :: canvas and s e :: int
  defines "len \<equiv> int (length (sequence c))"
  shows "(sequence c = [] \<or> s < 0 \<or> len \<le> e
            \<longrightarrow> applyTrim br c s e = (Failure ''Invalid trim range'', c)) \<and>
         (0 \<le> s \<and> s < len \<and> 0 \<le> e \<and> e < len \<and> traces c = None
            \<longrightarrow> applyTrim br c s e = (TypeError, c)) \<and>
         (0 \<le> s \<and> s < len \<and> 0 \<le> e \<and> e < len \<and> traces c \<noteq> None
            \<longrightarrow> (let lo = min s e; hi = max s e; k = nat (hi - lo + 1);
                      c' = snd (applyTrim br c s e)
                  in fst (applyTrim br c s e) = Success len (int k) (len - int k) lo hi \<and>
                     sequence c' = take k (drop (nat lo) (sequence c)) \<and>
                     qualityScores c' = take k (drop (nat lo) (qualityScores c)) \<and>
                     peakLocations c' =
                       map (\<lambda>pos. jsint_minus pos
                              (jsint_max (Some 0)
                                 (jsint_minus (js_peak (peakLocations c) lo) (Some 10))))
                           (take k (drop (nat lo) (peakLocations c))) \<and>
                     selection c' = (-1, -1) \<and> searchMatches c' = [] \<and>
                     currentMatchIndex c' = -1 \<and> modifications c' = {}))"
proof (intro conjI impI)
  assume "sequence c = [] \<or> s < 0 \<or> len \<le> e"
  then show "applyTrim br c s e = (Failure ''Invalid trim range'', c)"
    unfolding len_def by (rule applyTrim_rejects)
next
  assume "0 \<le> s \<and> s < len \<and> 0 \<le> e \<and> e < len \<and> traces c = None"
  then show "applyTrim br c s e = (TypeError, c)"
    unfolding len_def by (intro applyTrim_no_traces) auto
next
  assume a: "0 \<le> s \<and> s < len \<and> 0 \<le> e \<and> e < len \<and> traces c \<noteq> None"
  then obtain tr where tr: "traces c = Some tr" by auto
  have g: "\<not> (sequence c = [] \<or> s < 0 \<or> e \<ge> int (length (sequence c)))"
    using a by (auto simp: len_def)
  have lo: "(if s > e then e else s) = min s e" and hi: "(if s > e then s else e) = max s e"
    by auto
  note f = applyTrim_fields[OF g tr, of br, unfolded lo hi]
  have r: "0 \<le> min s e" "min s e \<le> max s e + 1" using a by auto
  define K where "K = nat (max s e - min s e + 1)"
  have k: "nat (max s e + 1 - min s e) = K" by (simp add: K_def)
  have ln: "nat (min s e) + K \<le> length (sequence c)"
    using a by (auto simp: len_def K_def)
  have sq: "sequence (snd (applyTrim br c s e)) = take K (drop (nat (min s e)) (sequence c))"
    by (simp add: f js_substring_take_drop[OF r] k)
  have "length (sequence (snd (applyTrim br c s e))) = K"
    unfolding sq using ln by simp
  then have ls: "int (length (sequence (snd (applyTrim br c s e)))) = int K" by simp
  have q: "qualityScores (snd (applyTrim br c s e)) = take K (drop (nat (min s e)) (qualityScores c))"
    by (simp add: f js_slice_take_drop[OF r] k)
  show "let lo = min s e; hi = max s e; k = nat (hi - lo + 1); c' = snd (applyTrim br c s e)
        in fst (applyTrim br c s e) = Success len (int k) (len - int k) lo hi \<and>
           sequence c' = take k (drop (nat lo) (sequence c)) \<and>
           qualityScores c' = take k (drop (nat lo) (qualityScores c)) \<and>
           peakLocations c' =
             map (\<lambda>pos. jsint_minus pos
                    (jsint_max (Some 0) (jsint_minus (js_peak (peakLocations c) lo) (Some 10))))
                 (take k (drop (nat lo) (peakLocations c))) \<and>
           selection c' = (-1, -1) \<and> searchMatches c' = [] \<and>
           currentMatchIndex c' = -1 \<and> modifications c' = {}"
    unfolding Let_def K_def[symmetric]
    using sq q f(3-7) ln by (simp add: f(8) ls js_slice_take_drop[OF r] k len_def)
qed

text \<open>Instances on the five-base canvas: end index 5 is rejected, \<open>[1, 3]\<close> is cut.\<close>

theorem applyTrim_outcome_witness:
  "5 \<le> (5::int) \<and> applyTrim plain_browser canvas_five 0 5 = (Failure ''Invalid trim range'', canvas_five) \<and>
   traces canvas_five \<noteq> None \<and>
   fst (applyTrim plain_browser canvas_five 1 3) = Success 5 3 2 1 3 \<and>
   sequence (snd (applyTrim plain_browser canvas_five 1 3)) = ''CGT'' \<and>
   qualityScores (snd (applyTrim plain_browser canvas_five 1 3)) = [30, 40, 30] \<and>
   peakLocations (snd (applyTrim plain_browser canvas_five 1 3)) = [Some 10, Some 20, Some 30]"
  using applyTrim_outcome [of canvas_five 0 5 plain_browser]
    applyTrim_outcome [of canvas_five 1 3 plain_browser]
  by (simp add: canvas_five_fields Let_def js_peak_def js_nth_def jsint_minus_def jsint_max_def)

text \<open>
  The claim C2 as the specification states it fails on an inverted pair:
  \<^verbatim>\<open>applyTrim(3, 1)\<close> on five bases has \<open>start > end\<close> and succeeds, with
  the result of \<^verbatim>\<open>applyTrim(1, 3)\<close>.
\<close>

theorem applyTrim_swaps_counterexample:
  "(3::int) > 1 \<and>
   fst (applyTrim plain_browser canvas_five 3 1) = Success 5 3 2 1 3 \<and>
   sequence (snd (applyTrim plain_browser canvas_five 3 1)) = ''CGT''"
proof -
  have g: "\<not> (sequence canvas_five = [] \<or> (3::int) < 0 \<or> 1 \<ge> int (length (sequence canvas_five)))"
    by (simp add: canvas_five_fields)
  obtain tr where tr: "traces canvas_five = Some tr" using canvas_five_fields(4) by auto
  from applyTrim_fields(1,8)[OF g tr, of plain_browser]
  show ?thesis by (simp add: canvas_five_fields js_substring_def)
qed

text \<open>
  The range test runs before the pair is put in order, so an inverted pair
  whose end is negative passes it: \<^verbatim>\<open>applyTrim(2, -1)\<close> on five bases
  reports success and leaves three bases with no scores and no peaks.
\<close>

lemma applyTrim_inverted_below_zero:
  "fst (applyTrim plain_browser canvas_five 2 (-1)) = Success 5 3 2 (-1) 2 \<and>
   sequence (snd (applyTrim plain_browser canvas_five 2 (-1))) = ''ACG'' \<and>
   qualityScores (snd (applyTrim plain_browser canvas_five 2 (-1))) = [] \<and>
   peakLocations (snd (applyTrim plain_browser canvas_five 2 (-1))) = []"
proof -
  have g: "\<not> (sequence canvas_five = [] \<or> (2::int) < 0 \<or> -1 \<ge> int (length (sequence canvas_five)))"
    by (simp add: canvas_five_fields)
  obtain tr where tr: "traces canvas_five = Some tr" using canvas_five_fields(4) by auto
  from applyTrim_fields(1,2,3,8)[OF g tr, of plain_browser]
  show ?thesis by (simp add: canvas_five_fields js_substring_def js_slice_def slice_index_def)
qed

text \<open>
  \<^verbatim>\<open>applyTrim\<close> cuts the arrays of the canvas, not \<^verbatim>\<open>fileData.sequence\<close>:
  after it the canvas no longer shows the sequence of the file data, until
  the caller copies the trimmed sequence back (\<^verbatim>\<open>applyQualityTrim\<close> does).
  An edit made before that puts the uncut sequence back on the canvas, five
  bases over three scores.
\<close>

lemma applyTrim_leaves_fileData:
  "\<not> in_sync \<lparr>fileData_sequence = ''ACGTA'',
              chromatogram = snd (applyTrim plain_browser canvas_five 1 3),
              undoStack = [], redoStack = [], maxSize = 100\<rparr> \<and>
   \<not> model_invariant (chromatogram (setBase
        \<lparr>fileData_sequence = ''ACGTA'',
         chromatogram = snd (applyTrim plain_browser canvas_five 1 3),
         undoStack = [], redoStack = [], maxSize = 100\<rparr>
        \<lparr>index = 1, oldBase = ''G'', newBase = ''T''\<rparr> ''T''))"
proof -
  obtain tr where tr: "traces canvas_five = Some tr" using canvas_five_fields(4) by blast
  have g: "\<not> (sequence canvas_five = [] \<or> (1::int) < 0 \<or> 3 \<ge> int (length (sequence canvas_five)))"
    by (simp add: canvas_five_fields)
  have sq: "sequence (snd (applyTrim plain_browser canvas_five 1 3)) = ''CGT''"
    using applyTrim_fields(1)[OF g tr, of plain_browser]
    by (simp add: canvas_five_fields js_substring_def Let_def)
  have qs: "qualityScores (snd (applyTrim plain_browser canvas_five 1 3)) = [30, 40, 30]"
    using applyTrim_fields(2)[OF g tr, of plain_browser]
    by (simp add: canvas_five_fields js_slice_def slice_index_def Let_def)
  show ?thesis
    by (simp add: in_sync_def model_invariant_def setBase_canvas_fields sq qs split_set_join_def)
qed

section \<open>Properties of the ABIF parser\<close>

lemma those_map_Some:
  "(\<And>x. x \<in> set xs \<Longrightarrow> f x = Some (g x)) \<Longrightarrow> those (map f xs) = Some (map g xs)"
  by (induction xs) simp_all

lemma those_map_None:
  "x \<in> set xs \<Longrightarrow> f x = None \<Longrightarrow> those (map f xs) = None"
  by (induction xs) (auto split: option.splits)

lemma those_length: "those ys = Some xs \<Longrightarrow> length xs = length ys"
  by (induction ys arbitrary: xs) (auto split: option.splits)

lemma getUint8_Some: "off < length dv \<Longrightarrow> getUint8 dv off = Some (unat (dv ! off))"
  by (simp add: getUint8_def)

lemma bytes_read:
  assumes "off + n \<le> length dv"
  shows "those (map (\<lambda>i. getUint8 dv (off + i)) [0..<n]) = Some (map unat (take n (drop off dv)))"
proof -
  have "those (map (\<lambda>i. getUint8 dv (off + i)) [0..<n]) = Some (map (\<lambda>i. unat (dv ! (off + i))) [0..<n])"
    using assms by (intro those_map_Some) (simp add: getUint8_def)
  moreover have "map (\<lambda>i. unat (dv ! (off + i))) [0..<n] = map unat (take n (drop off dv))"
    using assms by (intro nth_equalityI) simp_all
  ultimately show ?thesis by simp
qed

lemma readString4_Some:
  "off + 4 \<le> length dv \<Longrightarrow>
   readString4 dv off = Some (map (fromCharCode \<circ> unat) (take 4 (drop off dv)))"
  by (simp add: readString4_def bytes_read)

lemma parseHeader_needs_34: "parseHeader dv = Some h \<Longrightarrow> 34 \<le> length dv"
  by (auto simp: parseHeader_def getUint32_def split: Option.bind_splits if_splits)

lemma parseHeader_Some:
  assumes "34 \<le> length dv"
  shows "\<exists>h. parseHeader dv = Some h \<and> filetype h = map (fromCharCode \<circ> unat) (take 4 dv)"
  using assms
  by (simp add: parseHeader_def readString4_Some getUint16_def getUint32_def)

lemma fromCharCode_unat_inj: "inj (fromCharCode \<circ> (unat :: 8 word \<Rightarrow> nat))"
proof (rule injI)
  fix a b :: "8 word"
  assume "(fromCharCode \<circ> unat) a = (fromCharCode \<circ> unat) b"
  then have "unat a mod 256 = unat b mod 256" by (simp add: fromCharCode_def)
  moreover have "unat a < 256" "unat b < 256"
    using unsigned_less[of a, where 'a = nat] unsigned_less[of b, where 'a = nat] by simp_all
  ultimately show "a = b" by (simp add: word_unat_eq_iff)
qed

lemma magic_string: "map (fromCharCode \<circ> unat) ABIF_magic = ''ABIF''"
  by code_simp

lemma magic_iff:
  "map (fromCharCode \<circ> unat) bs = ''ABIF'' \<longleftrightarrow> bs = ABIF_magic"
  unfolding magic_string[symmetric] by (rule inj_map_eq_map[OF fromCharCode_unat_inj])

lemma getTagData_empty_directory:
  "directory p = [] \<Longrightarrow> tags p = Map.empty \<Longrightarrow> getTagData p nm nr = Some (None, p)"
  by (simp add: getTagData_def findEntry_def)

text \<open>
  C7 (as amended). Let the first four bytes of the buffer differ from the
  signature. If the buffer has at least 34 bytes, the bytes of the header
  fields \<^verbatim>\<open>parse\<close> reads, \<^verbatim>\<open>parse\<close> fails with the format error; if it has
  fewer, \<^verbatim>\<open>parse\<close> fails as well, with the \<^verbatim>\<open>RangeError\<close> of the read that
  leaves the buffer. In both cases nothing is published: the directory is
  empty, no tag value is cached, the parser is not marked parsed, and
  \<^verbatim>\<open>getTagData\<close> answers \<^verbatim>\<open>null\<close> for every tag.
\<close>

theorem parse_bad_magic:
  assumes "take 4 buf \<noteq> ABIF_magic"
  shows "(length buf < 34 \<longrightarrow> fst (parse (new_ABIFParser buf)) = Some RangeError) \<and>
         (34 \<le> length buf \<longrightarrow>
            (\<exists>m. fst (parse (new_ABIFParser buf)) = Some (FormatError m) \<and> m \<noteq> ''ABIF'')) \<and>
         directory (snd (parse (new_ABIFParser buf))) = [] \<and>
         tags (snd (parse (new_ABIFParser buf))) = Map.empty \<and>
         \<not> parsed (snd (parse (new_ABIFParser buf))) \<and>
         getTagData (snd (parse (new_ABIFParser buf))) nm nr =
           Some (None, snd (parse (new_ABIFParser buf)))"
proof -
  define p' where "p' = snd (parse (new_ABIFParser buf))"
  have r: "(length buf < 34 \<longrightarrow> fst (parse (new_ABIFParser buf)) = Some RangeError) \<and>
         (34 \<le> length buf \<longrightarrow>
            (\<exists>m. fst (parse (new_ABIFParser buf)) = Some (FormatError m) \<and> m \<noteq> ''ABIF'')) \<and>
         directory p' = [] \<and> tags p' = Map.empty \<and> \<not> parsed p'"
  proof (cases "34 \<le> length buf")
    case False
    then have "parseHeader buf = None"
      using parseHeader_needs_34[of buf] by (cases "parseHeader buf") auto
    then have "parse (new_ABIFParser buf) = (Some RangeError, new_ABIFParser buf)"
      by (simp add: parse_def new_ABIFParser_def)
    with False show ?thesis by (simp add: p'_def) (simp add: new_ABIFParser_def)
  next
    case True
    from parseHeader_Some[OF True] obtain h where h: "parseHeader buf = Some h"
      and ft: "filetype h = map (fromCharCode \<circ> unat) (take 4 buf)" by blast
    from assms have bad: "filetype h \<noteq> ''ABIF''" by (simp add: ft magic_iff)
    have "parse (new_ABIFParser buf) =
            (Some (FormatError (filetype h)), (new_ABIFParser buf)\<lparr>header := Some h\<rparr>)"
      using h bad by (simp add: parse_def new_ABIFParser_def Let_def)
    with True bad show ?thesis by (simp add: p'_def) (simp add: new_ABIFParser_def)
  qed
  then have "getTagData p' nm nr = Some (None, p')"
    by (intro getTagData_empty_directory) simp_all
  with r show ?thesis by (simp add: p'_def)
qed

text \<open>An instance: a header-sized buffer of 128 bytes \<open>X\<close>.\<close>

theorem parse_bad_magic_witness:
  "take 4 (replicate 128 0x58) \<noteq> ABIF_magic \<and> 34 \<le> length (replicate 128 (0x58 :: 8 word)) \<and>
   (\<exists>m. fst (parse (new_ABIFParser (replicate 128 0x58))) = Some (FormatError m)) \<and>
   directory (snd (parse (new_ABIFParser (replicate 128 0x58)))) = []"
proof -
  have 1: "take 4 (replicate 128 0x58) \<noteq> ABIF_magic" by code_simp
  from parse_bad_magic [OF 1] show ?thesis using 1 by auto
qed

text \<open>
  The claim C7 as the specification states it, for every buffer, fails on a
  short one: the four bytes \<open>XXXX\<close> are not the signature, and \<^verbatim>\<open>parse\<close>
  fails with the \<^verbatim>\<open>RangeError\<close> of reading the version field, before it
  compares the magic.
\<close>

theorem parse_short_buffer_counterexample:
  "take 4 [0x58, 0x58, 0x58, 0x58] \<noteq> ABIF_magic \<and>
   fst (parse (new_ABIFParser [0x58, 0x58, 0x58, 0x58])) = Some RangeError"
proof -
  have "parseHeader [0x58, 0x58, 0x58, 0x58] = None"
    using parseHeader_needs_34[of "[0x58, 0x58, 0x58, 0x58]"]
    by (cases "parseHeader [0x58, 0x58, 0x58, 0x58]") auto
  then show ?thesis by (simp add: parse_def new_ABIFParser_def ABIF_magic_def)
qed

lemma those_map_total:
  assumes "\<And>i. i < n \<Longrightarrow> \<exists>y. f i = Some y"
  shows "\<exists>xs. those (map f [0..<n]) = Some xs \<and> length xs = n"
proof -
  have "those (map f [0..<n]) = Some (map (\<lambda>i. the (f i)) [0..<n])"
  proof (rule those_map_Some)
    fix x assume "x \<in> set [0..<n]"
    then have "x < n" by simp
    from assms[OF this] show "f x = Some (the (f x))" by auto
  qed
  then show ?thesis by simp
qed

lemma elem_in_bounds:
  fixes i n w off len :: nat
  assumes "i < n" "off + n * w \<le> len"
  shows "off + i * w + w \<le> len"
proof -
  have "(i + 1) * w \<le> n * w" using assms(1) by (intro mult_le_mono1) simp
  then show ?thesis using assms(2) by (simp add: algebra_simps)
qed

lemma readByteArray_total:
  "off + count * 1 \<le> length dv \<Longrightarrow>
   \<exists>vs. readByteArray dv off count = Some vs \<and> length vs = count"
  unfolding readByteArray_def
  by (rule those_map_total) (simp add: getUint8_def)

lemma readWordArray_total:
  assumes "off + count * 2 \<le> length dv"
  shows "\<exists>vs. readWordArray dv off count = Some vs \<and> length vs = count"
  unfolding readWordArray_def
proof (rule those_map_total)
  fix i assume "i < count"
  from elem_in_bounds[OF this assms]
  show "\<exists>y. map_option (\<lambda>w. Integer (int w)) (getUint16 dv (off + i * 2)) = Some y"
    by (simp add: getUint16_def)
qed

lemma readShortArray_total:
  assumes "off + count * 2 \<le> length dv"
  shows "\<exists>vs. readShortArray dv off count = Some vs \<and> length vs = count"
  unfolding readShortArray_def
proof (rule those_map_total)
  fix i assume "i < count"
  from elem_in_bounds[OF this assms]
  show "\<exists>y. map_option (\<lambda>unsigned. Integer (toSignedShort (int unsigned)))
              (getUint16 dv (off + i * 2)) = Some y"
    by (simp add: getUint16_def)
qed

lemma readLongArray_total:
  assumes "off + count * 4 \<le> length dv"
  shows "\<exists>vs. readLongArray dv off count = Some vs \<and> length vs = count"
  unfolding readLongArray_def
proof (rule those_map_total)
  fix i assume "i < count"
  from elem_in_bounds[OF this assms]
  show "\<exists>y. map_option (\<lambda>unsigned. Integer (toSignedLong (int unsigned)))
              (getUint32 dv (off + i * 4)) = Some y"
    by (simp add: getUint32_def)
qed

lemma readFloatArray_total:
  assumes "off + count * 4 \<le> length dv"
  shows "\<exists>vs. readFloatArray dv off count = Some vs \<and> length vs = count"
  unfolding readFloatArray_def
proof (rule those_map_total)
  fix i assume "i < count"
  from elem_in_bounds[OF this assms]
  show "\<exists>y. getFloat32 dv (off + i * 4) = Some y"
    by (simp add: getFloat32_def getUint32_def)
qed

lemma readDoubleArray_total:
  assumes "off + count * 8 \<le> length dv"
  shows "\<exists>vs. readDoubleArray dv off count = Some vs \<and> length vs = count"
  unfolding readDoubleArray_def
proof (rule those_map_total)
  fix i assume "i < count"
  from elem_in_bounds[OF this assms]
  show "\<exists>y. getFloat64 dv (off + i * 8) = Some y"
    by (simp add: getFloat64_def getUint32_def)
qed

lemma setUint32_view_length [simp]: "length (setUint32_view v) = 4"
  by (simp add: setUint32_view_def)

lemma extractTypedArray_shape:
  assumes "rd dv off count = Some vs" "length vs = count"
  shows "(do { result \<leftarrow> rd dv off count;
               Some (if count = 1 then Number (result ! 0) else Array result) })
         = Some (if count = 1 then Number (vs ! 0) else Array vs)"
  using assms by simp

lemma extractData_typed:
  assumes ty: "typed_array_width (elementtype e) = Some w"
    and bounds: "data_in_bounds p e w"
  shows "\<exists>vs. length vs = numelements e \<and>
          extractData p e = Some (if numelements e = 1 then Number (vs ! 0) else Array vs)"
proof -
  define dv where "dv = (if datasize e \<le> 4 then setUint32_view (dataoffset e) else buffer p)"
  define off where "off = (if datasize e \<le> 4 then 0 else dataoffset e)"
  have b: "off + numelements e * w \<le> length dv"
    using bounds by (simp add: data_in_bounds_def dv_def off_def split: if_splits)
  note codes = ABIF_TYPE_BYTE_def ABIF_TYPE_CHAR_def ABIF_TYPE_WORD_def ABIF_TYPE_SHORT_def
    ABIF_TYPE_LONG_def ABIF_TYPE_FLOAT_def ABIF_TYPE_DOUBLE_def
  have "(elementtype e = ABIF_TYPE_BYTE \<and> w = 1) \<or> (elementtype e = ABIF_TYPE_CHAR \<and> w = 1) \<or>
        (elementtype e = ABIF_TYPE_WORD \<and> w = 2) \<or> (elementtype e = ABIF_TYPE_SHORT \<and> w = 2) \<or>
        (elementtype e = ABIF_TYPE_LONG \<and> w = 4) \<or> (elementtype e = ABIF_TYPE_FLOAT \<and> w = 4) \<or>
        (elementtype e = ABIF_TYPE_DOUBLE \<and> w = 8)"
    using ty unfolding typed_array_width_def by (simp split: if_splits)
  then consider
      (byte) "elementtype e = 1" "w = 1" | (char) "elementtype e = 2" "w = 1"
    | (word) "elementtype e = 3" "w = 2" | (short) "elementtype e = 4" "w = 2"
    | (long) "elementtype e = 5" "w = 4" | (float) "elementtype e = 7" "w = 4"
    | (double) "elementtype e = 8" "w = 8"
    unfolding codes by blast
  then show ?thesis
  proof cases
    case byte
    from readByteArray_total[of off "numelements e" dv] b byte
    obtain vs where "readByteArray dv off (numelements e) = Some vs" "length vs = numelements e"
      by auto
    then show ?thesis using byte
      by (intro exI[of _ vs])
         (simp add: extractData_def Let_def codes extractTypedArray_def dv_def off_def)
  next
    case char
    from readByteArray_total[of off "numelements e" dv] b char
    obtain vs where "readByteArray dv off (numelements e) = Some vs" "length vs = numelements e"
      by auto
    then show ?thesis using char
      by (intro exI[of _ vs])
         (simp add: extractData_def Let_def codes extractTypedArray_def readCharArray_def
            dv_def off_def)
  next
    case word
    from readWordArray_total[of off "numelements e" dv] b word
    obtain vs where "readWordArray dv off (numelements e) = Some vs" "length vs = numelements e"
      by auto
    then show ?thesis using word
      by (intro exI[of _ vs])
         (simp add: extractData_def Let_def codes extractTypedArray_def dv_def off_def)
  next
    case short
    from readShortArray_total[of off "numelements e" dv] b short
    obtain vs where "readShortArray dv off (numelements e) = Some vs" "length vs = numelements e"
      by auto
    then show ?thesis using short
      by (intro exI[of _ vs])
         (simp add: extractData_def Let_def codes extractTypedArray_def dv_def off_def)
  next
    case long
    from readLongArray_total[of off "numelements e" dv] b long
    obtain vs where "readLongArray dv off (numelements e) = Some vs" "length vs = numelements e"
      by auto
    then show ?thesis using long
      by (intro exI[of _ vs])
         (simp add: extractData_def Let_def codes extractTypedArray_def dv_def off_def)
  next
    case float
    from readFloatArray_total[of off "numelements e" dv] b float
    obtain vs where "readFloatArray dv off (numelements e) = Some vs" "length vs = numelements e"
      by auto
    then show ?thesis using float
      by (intro exI[of _ vs])
         (simp add: extractData_def Let_def codes extractTypedArray_def dv_def off_def)
  next
    case double
    from readDoubleArray_total[of off "numelements e" dv] b double
    obtain vs where "readDoubleArray dv off (numelements e) = Some vs" "length vs = numelements e"
      by auto
    then show ?thesis using double
      by (intro exI[of _ vs])
         (simp add: extractData_def Let_def codes extractTypedArray_def dv_def off_def)
  qed
qed

text \<open>
  The key of a tag determines its name and number, so the cache stays
  consistent: it is so in a new parser and after \<^verbatim>\<open>parse\<close>, and every call
  of \<^verbatim>\<open>getTagData\<close> that returns keeps it so.
\<close>

lemma digit_char_value: "d < 10 \<Longrightarrow> of_char (digit_char d) = 48 + d"
  by (simp add: digit_char_def)

lemma nat_of_digits_snoc:
  "nat_of_digits (s @ [c]) = nat_of_digits s * 10 + (of_char c - 48)"
  by (simp add: nat_of_digits_def)

lemma nat_of_digits_string_of_nat: "nat_of_digits (string_of_nat n) = n"
proof (induction n rule: string_of_nat.induct)
  case (1 n)
  show ?case
  proof (cases "n < 10")
    case True
    then show ?thesis
      by (subst string_of_nat.simps) (simp add: nat_of_digits_def digit_char_value)
  next
    case False
    have "n mod 10 < 10" by simp
    with False "1.IH" show ?thesis
      by (subst string_of_nat.simps) (simp add: nat_of_digits_snoc digit_char_value)
  qed
qed

lemma string_of_nat_inj: "string_of_nat m = string_of_nat n \<Longrightarrow> m = n"
  by (metis nat_of_digits_string_of_nat)

lemma string_of_nat_no_underscore: "CHR ''_'' \<notin> set (string_of_nat n)"
proof (induction n rule: string_of_nat.induct)
  case (1 n)
  have d: "digit_char k \<noteq> CHR ''_''" if "k < 10" for k
  proof
    assume "digit_char k = CHR ''_''"
    then have "of_char (digit_char k) = (of_char (CHR ''_'') :: nat)" by simp
    with that show False by (simp add: digit_char_value)
  qed
  show ?case
  proof (cases "n < 10")
    case True
    then show ?thesis using d[of n] by (subst string_of_nat.simps) auto
  next
    case False
    have "n mod 10 < 10" by simp
    with False "1.IH" d[of "n mod 10"] show ?thesis
      by (subst string_of_nat.simps) auto
  qed
qed

lemma split_at_last:
  "xs @ a # ys = xs' @ a # ys' \<Longrightarrow> a \<notin> set ys \<Longrightarrow> a \<notin> set ys' \<Longrightarrow> xs = xs' \<and> ys = ys'"
proof (induction xs arbitrary: xs')
  case Nil
  then show ?case by (cases xs') auto
next
  case (Cons x xs)
  then show ?case by (cases xs') auto
qed

lemma getTagKey_inj:
  assumes "getTagKey nm nr = getTagKey nm' nr'"
  shows "nm = nm' \<and> nr = nr'"
proof -
  from assms have "nm @ CHR ''_'' # string_of_nat nr = nm' @ CHR ''_'' # string_of_nat nr'"
    by (simp add: getTagKey_def)
  from split_at_last[OF this string_of_nat_no_underscore string_of_nat_no_underscore]
  show ?thesis by (auto dest: string_of_nat_inj)
qed

lemma new_parser_cache: "cache_consistent (new_ABIFParser buf)"
  by (simp add: cache_consistent_def new_ABIFParser_def)

lemma parse_cache: "cache_consistent (snd (parse (new_ABIFParser buf)))"
  by (auto simp: cache_consistent_def parse_def new_ABIFParser_def Let_def split: option.splits)

lemma getTagData_cache:
  assumes g: "getTagData p nm nr = Some (r, p')" and c: "cache_consistent p"
  shows "cache_consistent p'"
proof (cases "tags p (getTagKey nm nr)")
  case (Some v)
  with g have "p' = p" by (simp add: getTagData_def Let_def)
  with c show ?thesis by simp
next
  case None
  show ?thesis
  proof (cases "findEntry p nm nr")
    case n: None
    with None g have "p' = p" by (simp add: getTagData_def Let_def)
    with c show ?thesis by simp
  next
    case (Some e)
    with None g obtain data where d: "extractData p e = Some data"
      and p': "p' = p\<lparr>tags := (tags p)(getTagKey nm nr \<mapsto> data)\<rparr>"
      by (auto simp: getTagData_def Let_def split: option.splits)
    have same: "findEntry p' a b = findEntry p a b" "extractData p' x = extractData p x" for a b x
      by (simp_all add: p' findEntry_def extractData_def)
    show ?thesis
      unfolding cache_consistent_def
    proof (intro allI impI)
      fix nm' nr' v assume t: "tags p' (getTagKey nm' nr') = Some v"
      show "\<exists>e. findEntry p' nm' nr' = Some e \<and> extractData p' e = Some v"
      proof (cases "getTagKey nm' nr' = getTagKey nm nr")
        case True
        then have "nm' = nm \<and> nr' = nr" by (rule getTagKey_inj)
        moreover from t True have "v = data" by (simp add: p')
        ultimately show ?thesis using Some d by (simp add: same)
      next
        case False
        with t have "tags p (getTagKey nm' nr') = Some v" by (simp add: p')
        with c show ?thesis by (simp add: cache_consistent_def same)
      qed
    qed
  qed
qed

lemma those_last_None:
  assumes "0 < n" "f (n - 1) = None"
  shows "those (map f [0..<n]) = None"
  using assms by (intro those_map_None[of "n - 1"]) simp_all

lemma last_elem_out:
  fixes n w off len :: nat
  assumes "0 < n" "\<not> off + n * w \<le> len"
  shows "\<not> off + (n - 1) * w + w \<le> len"
proof -
  have "(n - 1) * w + w = n * w" using assms(1) by (cases n) simp_all
  then show ?thesis using assms(2) by (simp add: add.assoc)
qed

lemma readByteArray_out:
  assumes "0 < count" "\<not> off + count * 1 \<le> length dv"
  shows "readByteArray dv off count = None"
  unfolding readByteArray_def
  using last_elem_out[OF assms] by (intro those_last_None[OF assms(1)]) (simp add: getUint8_def)

lemma readWordArray_out:
  assumes "0 < count" "\<not> off + count * 2 \<le> length dv"
  shows "readWordArray dv off count = None"
  unfolding readWordArray_def
  using last_elem_out[OF assms] by (intro those_last_None[OF assms(1)]) (simp add: getUint16_def)

lemma readShortArray_out:
  assumes "0 < count" "\<not> off + count * 2 \<le> length dv"
  shows "readShortArray dv off count = None"
  unfolding readShortArray_def
  using last_elem_out[OF assms] by (intro those_last_None[OF assms(1)]) (simp add: getUint16_def)

lemma readLongArray_out:
  assumes "0 < count" "\<not> off + count * 4 \<le> length dv"
  shows "readLongArray dv off count = None"
  unfolding readLongArray_def
  using last_elem_out[OF assms] by (intro those_last_None[OF assms(1)]) (simp add: getUint32_def)

lemma readFloatArray_out:
  assumes "0 < count" "\<not> off + count * 4 \<le> length dv"
  shows "readFloatArray dv off count = None"
  unfolding readFloatArray_def
  using last_elem_out[OF assms]
  by (intro those_last_None[OF assms(1)]) (simp add: getFloat32_def getUint32_def)

lemma readDoubleArray_out:
  assumes "0 < count" "\<not> off + count * 8 \<le> length dv"
  shows "readDoubleArray dv off count = None"
  unfolding readDoubleArray_def
  using last_elem_out[OF assms]
  by (intro those_last_None[OF assms(1)]) (simp add: getFloat64_def)

lemma extractData_typed_out:
  assumes ty: "typed_array_width (elementtype e) = Some w"
    and n: "1 \<le> numelements e"
    and out: "\<not> data_in_bounds p e w"
  shows "extractData p e = None"
proof -
  define dv where "dv = (if datasize e \<le> 4 then setUint32_view (dataoffset e) else buffer p)"
  define off where "off = (if datasize e \<le> 4 then 0 else dataoffset e)"
  have b: "\<not> off + numelements e * w \<le> length dv"
    using out by (simp add: data_in_bounds_def dv_def off_def split: if_splits)
  have c: "0 < numelements e" using n by simp
  note codes = ABIF_TYPE_BYTE_def ABIF_TYPE_CHAR_def ABIF_TYPE_WORD_def ABIF_TYPE_SHORT_def
    ABIF_TYPE_LONG_def ABIF_TYPE_FLOAT_def ABIF_TYPE_DOUBLE_def
  have "(elementtype e = ABIF_TYPE_BYTE \<and> w = 1) \<or> (elementtype e = ABIF_TYPE_CHAR \<and> w = 1) \<or>
        (elementtype e = ABIF_TYPE_WORD \<and> w = 2) \<or> (elementtype e = ABIF_TYPE_SHORT \<and> w = 2) \<or>
        (elementtype e = ABIF_TYPE_LONG \<and> w = 4) \<or> (elementtype e = ABIF_TYPE_FLOAT \<and> w = 4) \<or>
        (elementtype e = ABIF_TYPE_DOUBLE \<and> w = 8)"
    using ty unfolding typed_array_width_def by (simp split: if_splits)
  then consider
      (byte) "elementtype e = 1" "w = 1" | (char) "elementtype e = 2" "w = 1"
    | (word) "elementtype e = 3" "w = 2" | (short) "elementtype e = 4" "w = 2"
    | (long) "elementtype e = 5" "w = 4" | (float) "elementtype e = 7" "w = 4"
    | (double) "elementtype e = 8" "w = 8"
    unfolding codes by blast
  then show ?thesis
  proof cases
    case byte
    with b have "readByteArray dv off (numelements e) = None"
      by (intro readByteArray_out[OF c]) simp
    then show ?thesis using byte
      by (simp add: extractData_def Let_def codes extractTypedArray_def dv_def off_def)
  next
    case char
    with b have "readByteArray dv off (numelements e) = None"
      by (intro readByteArray_out[OF c]) simp
    then show ?thesis using char
      by (simp add: extractData_def Let_def codes extractTypedArray_def readCharArray_def
            dv_def off_def)
  next
    case word
    with b have "readWordArray dv off (numelements e) = None"
      by (intro readWordArray_out[OF c]) simp
    then show ?thesis using word
      by (simp add: extractData_def Let_def codes extractTypedArray_def dv_def off_def)
  next
    case short
    with b have "readShortArray dv off (numelements e) = None"
      by (intro readShortArray_out[OF c]) simp
    then show ?thesis using short
      by (simp add: extractData_def Let_def codes extractTypedArray_def dv_def off_def)
  next
    case long
    with b have "readLongArray dv off (numelements e) = None"
      by (intro readLongArray_out[OF c]) simp
    then show ?thesis using long
      by (simp add: extractData_def Let_def codes extractTypedArray_def dv_def off_def)
  next
    case float
    with b have "readFloatArray dv off (numelements e) = None"
      by (intro readFloatArray_out[OF c]) simp
    then show ?thesis using float
      by (simp add: extractData_def Let_def codes extractTypedArray_def dv_def off_def)
  next
    case double
    with b have "readDoubleArray dv off (numelements e) = None"
      by (intro readDoubleArray_out[OF c]) simp
    then show ?thesis using double
      by (simp add: extractData_def Let_def codes extractTypedArray_def dv_def off_def)
  qed
qed

lemma readDate_cases:
  "readDate dv off =
    (if off + 4 \<le> length dv
     then Some (Date (unat (dv ! off) * 256 + unat (dv ! (off + 1)))
                     (unat (dv ! (off + 2))) (unat (dv ! (off + 3))))
     else None)"
  by (simp add: readDate_def getUint16_def getUint8_def)

lemma readTime_cases:
  "readTime dv off =
    (if off + 4 \<le> length dv
     then Some (Time (unat (dv ! off)) (unat (dv ! (off + 1)))
                     (unat (dv ! (off + 2))) (unat (dv ! (off + 3))))
     else None)"
  by (auto simp: readTime_def getUint8_def)

lemma extractData_date:
  assumes "elementtype e = ABIF_TYPE_DATE"
  shows "if record_in_bounds p e then \<exists>y m d. extractData p e = Some (Date y m d)
         else extractData p e = None"
  using assms
  by (simp add: extractData_def Let_def readDate_cases record_in_bounds_def
        ABIF_TYPE_BYTE_def ABIF_TYPE_CHAR_def ABIF_TYPE_WORD_def ABIF_TYPE_SHORT_def
        ABIF_TYPE_LONG_def ABIF_TYPE_FLOAT_def ABIF_TYPE_DOUBLE_def ABIF_TYPE_DATE_def)

lemma extractData_time:
  assumes "elementtype e = ABIF_TYPE_TIME"
  shows "if record_in_bounds p e then \<exists>h m s hs. extractData p e = Some (Time h m s hs)
         else extractData p e = None"
  using assms
  by (simp add: extractData_def Let_def readTime_cases record_in_bounds_def
        ABIF_TYPE_BYTE_def ABIF_TYPE_CHAR_def ABIF_TYPE_WORD_def ABIF_TYPE_SHORT_def
        ABIF_TYPE_LONG_def ABIF_TYPE_FLOAT_def ABIF_TYPE_DOUBLE_def ABIF_TYPE_DATE_def
        ABIF_TYPE_TIME_def)

lemma getTagData_extract:
  assumes cache: "cache_consistent p" and found: "findEntry p nm nr = Some e"
  shows "case extractData p e of
           None \<Rightarrow> getTagData p nm nr = None
         | Some v \<Rightarrow> (\<exists>p'. getTagData p nm nr = Some (Some v, p'))"
proof (cases "tags p (getTagKey nm nr)")
  case None
  then show ?thesis using found by (simp add: getTagData_def Let_def split: option.splits)
next
  case (Some v)
  from cache[unfolded cache_consistent_def, rule_format, OF Some]
  obtain e' where "findEntry p nm nr = Some e'" "extractData p e' = Some v" by blast
  with found have "extractData p e = Some v" by simp
  with Some show ?thesis by (simp add: getTagData_def Let_def)
qed

text \<open>
  C10 (as amended). Let the cache be consistent and let the tag be looked
  up to an entry. If the entry has one of the seven element types that
  \<^verbatim>\<open>_extractTypedArray\<close> serves (byte, char, word, short, long, float,
  double) and its elements lie inside the bytes they are read from,
  \<^verbatim>\<open>getTagData\<close> returns a bare number when the element count is 1, and an
  array of as many numbers as the element count when it is greater than 1.
  If the entry has one of these types and at least one element, and its
  elements do not lie inside these bytes, \<^verbatim>\<open>getTagData\<close> throws. For a date
  or a time entry, whatever its element count, it returns one date or one
  time when the four bytes of the first one can be read, and throws
  otherwise.
\<close>

theorem getTagData_scalar_or_array:
  assumes cache: "cache_consistent p"
    and found: "findEntry p nm nr = Some e"
  shows "(typed_array_width (elementtype e) = Some w \<and> data_in_bounds p e w \<longrightarrow>
            (numelements e = 1 \<longrightarrow>
               (\<exists>v p'. getTagData p nm nr = Some (Some (Number v), p'))) \<and>
            (numelements e > 1 \<longrightarrow>
               (\<exists>vs p'. getTagData p nm nr = Some (Some (Array vs), p') \<and>
                         length vs = numelements e))) \<and>
         (typed_array_width (elementtype e) = Some w \<and> numelements e \<ge> 1 \<and>
          \<not> data_in_bounds p e w \<longrightarrow> getTagData p nm nr = None) \<and>
         (elementtype e = ABIF_TYPE_DATE \<longrightarrow>
            (if record_in_bounds p e
             then \<exists>y m d p'. getTagData p nm nr = Some (Some (Date y m d), p')
             else getTagData p nm nr = None)) \<and>
         (elementtype e = ABIF_TYPE_TIME \<longrightarrow>
            (if record_in_bounds p e
             then \<exists>h m s hs p'. getTagData p nm nr = Some (Some (Time h m s hs), p')
             else getTagData p nm nr = None))"
proof (intro conjI impI)
  assume a: "typed_array_width (elementtype e) = Some w \<and> data_in_bounds p e w"
  then obtain vs where len: "length vs = numelements e"
    and ex: "extractData p e = Some (if numelements e = 1 then Number (vs ! 0) else Array vs)"
    using extractData_typed[of e w p] by blast
  from getTagData_extract[OF cache found] ex
  have g: "\<exists>p'. getTagData p nm nr =
          Some (Some (if numelements e = 1 then Number (vs ! 0) else Array vs), p')"
    by simp
  show "numelements e = 1 \<Longrightarrow> \<exists>v p'. getTagData p nm nr = Some (Some (Number v), p')"
    using g by auto
  show "numelements e > 1 \<Longrightarrow>
        \<exists>vs p'. getTagData p nm nr = Some (Some (Array vs), p') \<and> length vs = numelements e"
    using g len by auto
next
  assume "typed_array_width (elementtype e) = Some w \<and> numelements e \<ge> 1 \<and>
          \<not> data_in_bounds p e w"
  then have "extractData p e = None" using extractData_typed_out[of e w p] by blast
  with getTagData_extract[OF cache found] show "getTagData p nm nr = None" by simp
next
  assume "elementtype e = ABIF_TYPE_DATE"
  from extractData_date[OF this, of p] getTagData_extract[OF cache found]
  show "if record_in_bounds p e
        then \<exists>y m d p'. getTagData p nm nr = Some (Some (Date y m d), p')
        else getTagData p nm nr = None"
    by (auto split: if_splits)
next
  assume "elementtype e = ABIF_TYPE_TIME"
  from extractData_time[OF this, of p] getTagData_extract[OF cache found]
  show "if record_in_bounds p e
        then \<exists>h m s hs p'. getTagData p nm nr = Some (Some (Time h m s hs), p')
        else getTagData p nm nr = None"
    by (auto split: if_splits)
qed

text \<open>
  Instances: the entry of one 16-bit element and the entry of two, whose
  data are inline; two dates, of which the first is returned; a time; and
  a 64-bit float whose data would be past the end of the buffer.
\<close>

theorem getTagData_scalar_or_array_witness:
  "cache_consistent parser_two \<and> cache_consistent parser_three \<and>
   findEntry parser_two ''PLOC'' 1 = Some entry_one \<and>
   findEntry parser_two ''PLOC'' 2 = Some entry_two \<and>
   findEntry parser_three ''RUND'' 1 = Some entry_date \<and>
   findEntry parser_three ''RUNT'' 1 = Some entry_time \<and>
   findEntry parser_three ''DBL1'' 1 = Some entry_double \<and>
   typed_array_width (elementtype entry_double) = Some 8 \<and> numelements entry_double \<ge> 1 \<and>
   \<not> data_in_bounds parser_three entry_double 8 \<and>
   getTagData parser_three ''DBL1'' 1 = None \<and>
   typed_array_width (elementtype entry_one) = Some 2 \<and>
   typed_array_width (elementtype entry_two) = Some 2 \<and>
   data_in_bounds parser_two entry_one 2 \<and> data_in_bounds parser_two entry_two 2 \<and>
   numelements entry_one = 1 \<and> numelements entry_two > 1 \<and>
   elementtype entry_date = ABIF_TYPE_DATE \<and> record_in_bounds parser_three entry_date \<and>
   numelements entry_date = 2 \<and>
   elementtype entry_time = ABIF_TYPE_TIME \<and> record_in_bounds parser_three entry_time \<and>
   (\<exists>v p'. getTagData parser_two ''PLOC'' 1 = Some (Some (Number v), p')) \<and>
   (\<exists>vs p'. getTagData parser_two ''PLOC'' 2 = Some (Some (Array vs), p') \<and> length vs = 2) \<and>
   (\<exists>y m d p'. getTagData parser_three ''RUND'' 1 = Some (Some (Date y m d), p')) \<and>
   (\<exists>h m s hs p'. getTagData parser_three ''RUNT'' 1 = Some (Some (Time h m s hs), p')) \<and>
   map_option fst (getTagData parser_three ''RUND'' 1) = Some (Some (Date 2022 1 2)) \<and>
   map_option fst (getTagData parser_three ''RUNT'' 1) = Some (Some (Time 10 20 30 40))"
proof -
  note codes = ABIF_TYPE_BYTE_def ABIF_TYPE_CHAR_def ABIF_TYPE_WORD_def ABIF_TYPE_SHORT_def
    ABIF_TYPE_LONG_def ABIF_TYPE_FLOAT_def ABIF_TYPE_DOUBLE_def ABIF_TYPE_DATE_def
    ABIF_TYPE_TIME_def
  have c: "cache_consistent parser_two" by (simp add: cache_consistent_def parser_two_def)
  have c3: "cache_consistent parser_three" by (simp add: cache_consistent_def parser_three_def)
  have f1: "findEntry parser_two ''PLOC'' 1 = Some entry_one"
    by (simp add: findEntry_def parser_two_def entry_one_def)
  have f2: "findEntry parser_two ''PLOC'' 2 = Some entry_two"
    by (simp add: findEntry_def parser_two_def entry_one_def entry_two_def)
  have f3: "findEntry parser_three ''RUND'' 1 = Some entry_date"
    by (simp add: findEntry_def parser_three_def entry_double_def entry_date_def)
  have f4: "findEntry parser_three ''RUNT'' 1 = Some entry_time"
    by (simp add: findEntry_def parser_three_def entry_double_def entry_date_def entry_time_def)
  have f5: "findEntry parser_three ''DBL1'' 1 = Some entry_double"
    by (simp add: findEntry_def parser_three_def entry_double_def)
  have t5: "typed_array_width (elementtype entry_double) = Some 8"
    by (simp add: typed_array_width_def entry_double_def codes)
  have n5: "numelements entry_double \<ge> 1" by (simp add: entry_double_def)
  have b5: "\<not> data_in_bounds parser_three entry_double 8"
    by (simp add: data_in_bounds_def entry_double_def parser_three_def)
  have t1: "typed_array_width (elementtype entry_one) = Some 2"
    by (simp add: typed_array_width_def entry_one_def codes)
  have t2: "typed_array_width (elementtype entry_two) = Some 2"
    by (simp add: typed_array_width_def entry_two_def codes)
  have b1: "data_in_bounds parser_two entry_one 2" by (simp add: data_in_bounds_def entry_one_def)
  have b2: "data_in_bounds parser_two entry_two 2" by (simp add: data_in_bounds_def entry_two_def)
  have n: "numelements entry_one = 1" "numelements entry_two = 2" "numelements entry_date = 2"
    by (simp_all add: entry_one_def entry_two_def entry_date_def)
  have t3: "elementtype entry_date = ABIF_TYPE_DATE" by (simp add: entry_date_def codes)
  have t4: "elementtype entry_time = ABIF_TYPE_TIME" by (simp add: entry_time_def codes)
  have b3: "record_in_bounds parser_three entry_date"
    by (simp add: record_in_bounds_def entry_date_def parser_three_def)
  have b4: "record_in_bounds parser_three entry_time"
    by (simp add: record_in_bounds_def entry_time_def)
  have k: "tags parser_three k = None" for k by (simp add: parser_three_def)
  have d: "extractData parser_three entry_date = Some (Date 2022 1 2)"
    by (simp add: extractData_def Let_def entry_date_def parser_three_def codes readDate_cases)
  have tm: "extractData parser_three entry_time = Some (Time 10 20 30 40)"
    by (simp add: extractData_def Let_def entry_time_def codes readTime_cases setUint32_view_def)
  have v3: "map_option fst (getTagData parser_three ''RUND'' 1) = Some (Some (Date 2022 1 2))"
    using f3 d by (simp add: getTagData_def Let_def k)
  have v4: "map_option fst (getTagData parser_three ''RUNT'' 1) = Some (Some (Time 10 20 30 40))"
    using f4 tm by (simp add: getTagData_def Let_def k)
  from getTagData_scalar_or_array [OF c f1, of 2] getTagData_scalar_or_array [OF c f2, of 2]
    getTagData_scalar_or_array [OF c3 f3, of 4] getTagData_scalar_or_array [OF c3 f4, of 4]
    getTagData_scalar_or_array [OF c3 f5, of 8]
  show ?thesis using c c3 f1 f2 f3 f4 f5 t1 t2 t5 n5 b1 b2 b5 n t3 t4 b3 b4 v3 v4 by simp
qed

text \<open>
  The claim C10 as it is stated, for every entry of a fixed-size element
  type, fails on an entry whose data are not in the buffer: the entry below
  has one 64-bit float at offset 128 of a buffer of eight bytes, and
  \<^verbatim>\<open>getTagData\<close> returns nothing, it throws the \<^verbatim>\<open>RangeError\<close> of the read.
\<close>

theorem getTagData_out_of_bounds_counterexample:
  "findEntry parser_three ''DBL1'' 1 = Some entry_double \<and>
   elementtype entry_double = ABIF_TYPE_DOUBLE \<and> numelements entry_double = 1 \<and>
   cache_consistent parser_three \<and>
   getTagData parser_three ''DBL1'' 1 = None"
proof -
  have k: "tags parser_three k = None" for k by (simp add: parser_three_def)
  have f: "findEntry parser_three ''DBL1'' 1 = Some entry_double"
    by (simp add: findEntry_def parser_three_def entry_double_def)
  have x: "extractData parser_three entry_double = None"
    by (simp add: extractData_def Let_def entry_double_def parser_three_def
          ABIF_TYPE_BYTE_def ABIF_TYPE_CHAR_def ABIF_TYPE_WORD_def ABIF_TYPE_SHORT_def
          ABIF_TYPE_LONG_def ABIF_TYPE_FLOAT_def ABIF_TYPE_DOUBLE_def
          extractTypedArray_def readDoubleArray_def getFloat64_def)
  have g: "getTagData parser_three ''DBL1'' 1 = None"
    using f x by (simp add: getTagData_def Let_def k)
  have c: "cache_consistent parser_three" by (simp add: cache_consistent_def k)
  show ?thesis using f g c by (simp add: entry_double_def ABIF_TYPE_DOUBLE_def)
qed

section \<open>Round trip through the directory decoder\<close>



















lemma scalar_or_array_result:
  "rd = Some (map dec xs) \<Longrightarrow>
   (do { result \<leftarrow> rd; Some (if length xs = 1 then Number (result ! 0) else Array result) })
     = Some (scalar_or_array (map dec xs))"
  by (simp add: scalar_or_array_def)


lemma be16_length [simp]: "length (be16 x) = 2"
  by (simp add: be16_def)

lemma be64_length [simp]: "length (be64 x) = 8"
  by (simp add: be64_def setUint32_view_def)
























end
